theory Spec2Isabelle
  imports Main
begin

section \<open>The rule \<open>async-no-await\<close>: syntax tree, scope stack and listeners\<close>

subsection \<open>Syntax tree (the part of ESTree the listeners look at)\<close>

datatype Position = Position (line: nat) (column: nat)

datatype SourceLocation = SourceLocation (start: Position) (end': Position)

datatype FunctionType = FunctionDeclaration | FunctionExpression | ArrowFunctionExpression

text \<open>
  Every node carries its \<open>loc\<close>. The three function node types share one constructor
  (the source's \<open>FunctionNode\<close> union) with the \<open>async\<close> flag and the child nodes in
  visiting order (name, parameters, body; the body comes last). \<open>ForOfStatement\<close> carries
  its \<open>await\<close> flag, then \<open>left\<close>, \<open>right\<close>, \<open>body\<close>. \<open>CallExpression\<close> carries the
  callee and then the arguments. \<open>Identifier\<close> carries its name and its child nodes
  (decorators, type annotation). \<open>OtherNode\<close> is any node type for which the rule
  registers no listener (statements, blocks, literals, patterns, the program itself), with
  its children in visiting order.
\<close>

datatype Node =
    FunctionNode (ftype: FunctionType) (loc: SourceLocation) (async: bool) "Node list"
  | AwaitExpression (loc: SourceLocation) Node
  | ReturnStatement (loc: SourceLocation) "Node option"
  | ForOfStatement (loc: SourceLocation) (await: bool) Node Node Node
  | CallExpression (loc: SourceLocation) (callee: Node) "Node list"
  | Identifier (loc: SourceLocation) (name: string) "Node list"
  | MemberExpression (loc: SourceLocation) Node Node
  | OtherNode (loc: SourceLocation) "Node list"

fun isFunctionNode :: "Node \<Rightarrow> bool" where
  "isFunctionNode (FunctionNode t l a cs) = True"
| "isFunctionNode n = False"

fun isIdentifier :: "Node \<Rightarrow> bool" where
  "isIdentifier (Identifier l nm cs) = True"
| "isIdentifier n = False"

fun isCallExpression :: "Node \<Rightarrow> bool" where
  "isCallExpression (CallExpression l c args) = True"
| "isCallExpression n = False"

text \<open>The children of a node, in the order the traversal visits them.\<close>

fun childNodes :: "Node \<Rightarrow> Node list" where
  "childNodes (FunctionNode t l a cs) = cs"
| "childNodes (AwaitExpression l e) = [e]"
| "childNodes (ReturnStatement l None) = []"
| "childNodes (ReturnStatement l (Some e)) = [e]"
| "childNodes (ForOfStatement l aw x y b) = [x, y, b]"
| "childNodes (CallExpression l c args) = c # args"
| "childNodes (Identifier l nm cs) = cs"
| "childNodes (MemberExpression l ob pr) = [ob, pr]"
| "childNodes (OtherNode l cs) = cs"

subsection \<open>Scope stack and reports\<close>

text \<open>
  \<open>interface ScopeInfo { upper: ScopeInfo | null; hasAsyncCheck: boolean; noAwaitCalls: string[] }\<close>.
  The only reference to a record is the variable \<open>scopeInfo\<close> or the \<open>upper\<close> field of
  the record above it, and only the top record is ever mutated, so the chain is a value.
\<close>

datatype ScopeInfo =
  ScopeInfo (upper: "ScopeInfo option") (hasAsyncCheck: bool) (noAwaitCalls: "string list")

datatype MessageId = noAwaitBeforeReturnPromise | asyncCallNoAwait

text \<open>
  One call of \<open>context.report\<close>: the node, the \<open>loc\<close>, the message id and, for the
  summary message, \<open>data.noAwaitCalls\<close>.
\<close>

datatype Report =
  Report (node: Node) (reportLoc: SourceLocation) (messageId: MessageId) (data: "string list option")

text \<open>
  The external collaborators of \<open>create\<close>: the parser services' map from tree nodes
  to type-checker nodes, the thenable test of the type checker
  (\<open>tsutils.isThenableType(checker, node, checker.getTypeAtLocation(node))\<close>), and
  \<open>utils.getFunctionHeadLoc(node, sourceCode)\<close>.
\<close>

record 'ts Services =
  esTreeNodeToTSNodeMap :: "Node \<Rightarrow> 'ts option"
  tsutilsIsThenableType :: "'ts \<Rightarrow> bool"
  getFunctionHeadLoc :: "Node \<Rightarrow> SourceLocation"

text \<open>
  The mutable state of one \<open>create\<close>: the variable \<open>scopeInfo\<close>, the reports sent
  to \<open>context.report\<close> so far, and the type-checker nodes whose type was asked for.
\<close>

record 'ts State =
  scopeInfo :: "ScopeInfo option"
  reports :: "Report list"
  typeQueries :: "'ts list"

definition initialState :: "'ts State" where
  "initialState = \<lparr>scopeInfo = None, reports = [], typeQueries = []\<rparr>"

definition report :: "Report \<Rightarrow> 'ts State \<Rightarrow> 'ts State" where
  "report r st = st\<lparr>reports := reports st @ [r]\<rparr>"

subsection \<open>The listeners\<close>

definition enterFunction :: "Node \<Rightarrow> 'ts State \<Rightarrow> 'ts State" where
  "enterFunction nd st = st\<lparr>scopeInfo := Some (ScopeInfo (scopeInfo st) (async nd) [])\<rparr>"

definition exitFunction :: "'ts Services \<Rightarrow> Node \<Rightarrow> 'ts State \<Rightarrow> 'ts State" where
  "exitFunction env nd st =
     (case scopeInfo st of
        None \<Rightarrow> st
      | Some si \<Rightarrow>
          (if async nd \<and> length (noAwaitCalls si) > 0
           then report (Report nd (getFunctionHeadLoc env nd) noAwaitBeforeReturnPromise
                          (Some (noAwaitCalls si))) st
           else st) \<lparr>scopeInfo := upper si\<rparr>)"

definition enterShortCircuitExpression :: "Node \<Rightarrow> 'ts State \<Rightarrow> 'ts State" where
  "enterShortCircuitExpression nd st = st\<lparr>scopeInfo := Some (ScopeInfo (scopeInfo st) False [])\<rparr>"

definition exitShortCircuitExpression :: "Node \<Rightarrow> 'ts State \<Rightarrow> 'ts State" where
  "exitShortCircuitExpression nd st =
     (case scopeInfo st of
        None \<Rightarrow> st
      | Some si \<Rightarrow> st\<lparr>scopeInfo := upper si\<rparr>)"

definition isThenableType :: "'ts Services \<Rightarrow> 'ts \<Rightarrow> 'ts State \<Rightarrow> bool \<times> 'ts State" where
  "isThenableType env tsnode st =
     (tsutilsIsThenableType env tsnode, st\<lparr>typeQueries := typeQueries st @ [tsnode]\<rparr>)"

text \<open>Decimal digits of a line number, as the template literal prints it.\<close>

fun numberToString :: "nat \<Rightarrow> string" where
  "numberToString n =
     (if n < 10 then [''0123456789'' ! n]
      else numberToString (n div 10) @ [''0123456789'' ! (n mod 10)])"

declare numberToString.simps [simp del]

text \<open>The template literal \<open>`${callee.name}(line: ${callee.loc.start.line})`\<close>.\<close>

definition callDescriptor :: "Node \<Rightarrow> string" where
  "callDescriptor cal = name cal @ ''(line: '' @ numberToString (line (start (loc cal))) @ '')''"

definition addNoAwaitCalls :: "Node \<Rightarrow> Node \<Rightarrow> 'ts State \<Rightarrow> 'ts State" where
  "addNoAwaitCalls cal nd st =
     (case scopeInfo st of
        None \<Rightarrow> st
      | Some si \<Rightarrow>
          report (Report nd (loc cal) asyncCallNoAwait None)
            (st\<lparr>scopeInfo :=
                  Some (ScopeInfo (upper si) (hasAsyncCheck si)
                          (noAwaitCalls si @ [callDescriptor cal]))\<rparr>))"

text \<open>The listener registered under \<open>CallExpression\<close>.\<close>

definition onCallExpression :: "'ts Services \<Rightarrow> Node \<Rightarrow> 'ts State \<Rightarrow> 'ts State" where
  "onCallExpression env nd st =
     (case scopeInfo st of
        None \<Rightarrow> st
      | Some si \<Rightarrow>
          if \<not> hasAsyncCheck si then st
          else
            (case esTreeNodeToTSNodeMap env nd of
               None \<Rightarrow> st
             | Some tsnode \<Rightarrow>
                 (case isThenableType env tsnode st of
                    (thenable, st1) \<Rightarrow>
                      if thenable
                      then (if isIdentifier (callee nd) then addNoAwaitCalls (callee nd) nd st1
                            else st1)
                      else st1)))"

subsection \<open>The listener table and the traversal that drives it\<close>

text \<open>One invocation of a listener with a node.\<close>

datatype Event =
    EnterFunction Node
  | ExitFunction Node
  | EnterShortCircuitExpression Node
  | ExitShortCircuitExpression Node
  | OnCallExpression Node

fun handle :: "'ts Services \<Rightarrow> Event \<Rightarrow> 'ts State \<Rightarrow> 'ts State" where
  "handle env (EnterFunction nd) st = enterFunction nd st"
| "handle env (ExitFunction nd) st = exitFunction env nd st"
| "handle env (EnterShortCircuitExpression nd) st = enterShortCircuitExpression nd st"
| "handle env (ExitShortCircuitExpression nd) st = exitShortCircuitExpression nd st"
| "handle env (OnCallExpression nd) st = onCallExpression env nd st"

definition run :: "'ts Services \<Rightarrow> Event list \<Rightarrow> 'ts State \<Rightarrow> 'ts State" where
  "run env es st = fold (handle env) es st"

text \<open>
  The selector \<open>ArrowFunctionExpression[async = true] > AwaitExpression\<close> looks at the
  parent of the node.
\<close>

fun isAsyncArrow :: "Node option \<Rightarrow> bool" where
  "isAsyncArrow (Some (FunctionNode ArrowFunctionExpression l a cs)) = a"
| "isAsyncArrow p = False"

text \<open>
  The listeners the table of \<open>create\<close> registers for entering a node, one event for
  each selector that matches: the three function types; \<open>AwaitExpression\<close> and, when
  the parent is an async arrow function, the child selector as well;
  \<open>ReturnStatement\<close>; \<open>ForOfStatement[await = true]\<close>; \<open>CallExpression\<close>.
\<close>

fun enterEvents :: "Node option \<Rightarrow> Node \<Rightarrow> Event list" where
  "enterEvents parent (FunctionNode t l a cs) = [EnterFunction (FunctionNode t l a cs)]"
| "enterEvents parent (AwaitExpression l e) =
     EnterShortCircuitExpression (AwaitExpression l e) #
     (if isAsyncArrow parent then [EnterShortCircuitExpression (AwaitExpression l e)] else [])"
| "enterEvents parent (ReturnStatement l e) = [EnterShortCircuitExpression (ReturnStatement l e)]"
| "enterEvents parent (ForOfStatement l aw x y b) =
     (if aw then [EnterShortCircuitExpression (ForOfStatement l aw x y b)] else [])"
| "enterEvents parent (CallExpression l c args) = [OnCallExpression (CallExpression l c args)]"
| "enterEvents parent nd = []"

text \<open>The same selectors with \<open>:exit\<close>.\<close>

fun exitEvents :: "Node option \<Rightarrow> Node \<Rightarrow> Event list" where
  "exitEvents parent (FunctionNode t l a cs) = [ExitFunction (FunctionNode t l a cs)]"
| "exitEvents parent (AwaitExpression l e) =
     ExitShortCircuitExpression (AwaitExpression l e) #
     (if isAsyncArrow parent then [ExitShortCircuitExpression (AwaitExpression l e)] else [])"
| "exitEvents parent (ReturnStatement l e) = [ExitShortCircuitExpression (ReturnStatement l e)]"
| "exitEvents parent (ForOfStatement l aw x y b) =
     (if aw then [ExitShortCircuitExpression (ForOfStatement l aw x y b)] else [])"
| "exitEvents parent nd = []"

lemma childNodes_size [termination_simp]: "c \<in> set (childNodes n) \<Longrightarrow> size c < size n"
proof -
  have mem: "x \<in> set xs \<Longrightarrow> size x \<le> size_list size xs" for x :: Node and xs
    by (induction xs) auto
  assume "c \<in> set (childNodes n)"
  then show ?thesis
    by (cases n rule: childNodes.cases) (auto simp: less_Suc_eq_le dest: mem)
qed

text \<open>
  The traversal of the linter: the enter listeners of a node, its children in order,
  the exit listeners of the node.
\<close>

fun events :: "Node option \<Rightarrow> Node \<Rightarrow> Event list" where
  "events parent nd =
     enterEvents parent nd @ concat (map (events (Some nd)) (childNodes nd)) @ exitEvents parent nd"

declare events.simps [simp del]

definition analyze :: "'ts Services \<Rightarrow> Node \<Rightarrow> Report list" where
  "analyze env tree = reports (run env (events None tree) initialState)"

section \<open>Lexical context of call expressions\<close>

text \<open>
  The top scope is checkable: a scope is active and its \<open>hasAsyncCheck\<close> is true.
\<close>

definition checkable :: "'ts State \<Rightarrow> bool" where
  "checkable st = (case scopeInfo st of None \<Rightarrow> False | Some si \<Rightarrow> hasAsyncCheck si)"

text \<open>
  The nodes on which a scope record is pushed: function nodes and the suspension
  boundaries (await expression, return statement, \<open>for await\<close>).
\<close>

fun opensScope :: "Node \<Rightarrow> bool" where
  "opensScope (FunctionNode t l a cs) = True"
| "opensScope (AwaitExpression l e) = True"
| "opensScope (ReturnStatement l e) = True"
| "opensScope (ForOfStatement l aw x y b) = aw"
| "opensScope n = False"

text \<open>The answer of the type oracle for a node: \<open>tsnode && isThenableType(tsnode)\<close>.\<close>

definition isThenableCall :: "'ts Services \<Rightarrow> Node \<Rightarrow> bool" where
  "isThenableCall env n =
     (case esTreeNodeToTSNodeMap env n of None \<Rightarrow> False | Some t \<Rightarrow> tsutilsIsThenableType env t)"

text \<open>A thenable-returning call through a plain identifier callee.\<close>

definition isViolation :: "'ts Services \<Rightarrow> Node \<Rightarrow> bool" where
  "isViolation env n = (isCallExpression n \<and> isThenableCall env n \<and> isIdentifier (callee n))"

text \<open>
  The thenable identifier calls of a subtree, in source order, that are not nested inside
  a suspension boundary or a nested function; \<open>ownCalls\<close> are those of a function's
  children, the calls the function itself is answerable for.
\<close>

fun scopeCalls :: "'ts Services \<Rightarrow> Node \<Rightarrow> Node list" where
  "scopeCalls env n =
     (if opensScope n then []
      else (if isViolation env n then [n] else []) @ concat (map (scopeCalls env) (childNodes n)))"

declare scopeCalls.simps [simp del]

definition ownCalls :: "'ts Services \<Rightarrow> Node \<Rightarrow> Node list" where
  "ownCalls env f = concat (map (scopeCalls env) (childNodes f))"

text \<open>The two diagnostics, as \<open>addNoAwaitCalls\<close> and \<open>exitFunction\<close> build them.\<close>

definition callReport :: "Node \<Rightarrow> Report" where
  "callReport c = Report c (loc (callee c)) asyncCallNoAwait None"

definition summaryReport :: "'ts Services \<Rightarrow> Node \<Rightarrow> Report" where
  "summaryReport env f =
     Report f (getFunctionHeadLoc env f) noAwaitBeforeReturnPromise
       (Some (map (\<lambda>c. callDescriptor (callee c)) (ownCalls env f)))"

text \<open>
  The nearest enclosing scope-opening construct of a position in the tree, and the
  \<open>async\<close> flag of the nearest enclosing function (if there is one).
\<close>

datatype ScopeKind = NoScope | FunctionScope bool | AwaitScope | ReturnScope | ForAwaitScope

fun scopeWithin :: "Node \<Rightarrow> ScopeKind \<Rightarrow> ScopeKind" where
  "scopeWithin (FunctionNode t l a cs) sc = FunctionScope a"
| "scopeWithin (AwaitExpression l e) sc = AwaitScope"
| "scopeWithin (ReturnStatement l e) sc = ReturnScope"
| "scopeWithin (ForOfStatement l aw x y b) sc = (if aw then ForAwaitScope else sc)"
| "scopeWithin n sc = sc"

fun functionWithin :: "Node \<Rightarrow> bool option \<Rightarrow> bool option" where
  "functionWithin (FunctionNode t l a cs) fn = Some a"
| "functionWithin n fn = fn"

text \<open>
  Every call expression of a subtree, in source order, with its nearest enclosing
  scope-opening construct and the \<open>async\<close> flag of its nearest enclosing function; \<open>sc\<close>
  and \<open>fn\<close> are those of the subtree's root.
\<close>

fun callSites ::
  "ScopeKind \<Rightarrow> bool option \<Rightarrow> Node \<Rightarrow> (Node \<times> ScopeKind \<times> bool option) list" where
  "callSites sc fn n =
     (if isCallExpression n then [(n, sc, fn)] else []) @
     concat (map (callSites (scopeWithin n sc) (functionWithin n fn)) (childNodes n))"

declare callSites.simps [simp del]

text \<open>
  All call expressions of a subtree, in source order. Nodes of a syntax tree are distinct
  objects; here they are compared by value, so a statement about one call of a tree
  assumes \<open>distinct (callNodes tree)\<close>, which holds as soon as the calls have different
  locations.
\<close>

fun callNodes :: "Node \<Rightarrow> Node list" where
  "callNodes n = (if isCallExpression n then [n] else []) @ concat (map callNodes (childNodes n))"

declare callNodes.simps [simp del]

text \<open>The reports sent while the subtree \<open>n\<close> is traversed from the state \<open>st\<close>.\<close>

definition newReports :: "'ts Services \<Rightarrow> Node option \<Rightarrow> Node \<Rightarrow> 'ts State \<Rightarrow> Report list" where
  "newReports env p n st = drop (length (reports st)) (reports (run env (events p n) st))"

text \<open>
  The reports of a subtree written as a function of the tree: \<open>chk\<close> says whether the
  top scope is checkable when the subtree is entered.
\<close>

fun subtreeReports :: "'ts Services \<Rightarrow> bool \<Rightarrow> Node \<Rightarrow> Report list" where
  "subtreeReports env chk n =
     (if isFunctionNode n then
        concat (map (subtreeReports env (async n)) (childNodes n)) @
        (if async n \<and> ownCalls env n \<noteq> [] then [summaryReport env n] else [])
      else if opensScope n then concat (map (subtreeReports env False) (childNodes n))
      else (if chk \<and> isViolation env n then [callReport n] else []) @
           concat (map (subtreeReports env chk) (childNodes n)))"

declare subtreeReports.simps [simp del]

text \<open>Appending descriptors to the top record of the stack.\<close>

fun addCalls :: "string list \<Rightarrow> ScopeInfo option \<Rightarrow> ScopeInfo option" where
  "addCalls ds None = None"
| "addCalls ds (Some si) = Some (ScopeInfo (upper si) (hasAsyncCheck si) (noAwaitCalls si @ ds))"

definition scopeDescriptors :: "'ts Services \<Rightarrow> bool \<Rightarrow> Node \<Rightarrow> string list" where
  "scopeDescriptors env chk n =
     (if chk then map (\<lambda>c. callDescriptor (callee c)) (scopeCalls env n) else [])"

text \<open>
  What the traversal of a subtree does to the stack and to the reports, for every
  starting state.
\<close>

definition traversed :: "'ts Services \<Rightarrow> Node option \<Rightarrow> Node \<Rightarrow> bool" where
  "traversed env p n \<longleftrightarrow>
     (\<forall>st. scopeInfo (run env (events p n) st) =
             addCalls (scopeDescriptors env (checkable st) n) (scopeInfo st) \<and>
           reports (run env (events p n) st) = reports st @ subtreeReports env (checkable st) n)"

text \<open>
  The invariant of the stack: a record whose \<open>hasAsyncCheck\<close> is false has no pending
  calls.
\<close>

fun stackInv :: "ScopeInfo option \<Rightarrow> bool" where
  "stackInv None = True"
| "stackInv (Some (ScopeInfo up chk calls)) = ((chk \<or> calls = []) \<and> stackInv up)"

text \<open>
  Two sets of services give the same answers for an event: the same thenable answer for
  the call a \<open>CallExpression\<close> listener is invoked with, the same head location for the
  function an exit listener is invoked with.
\<close>

fun sameAnswers :: "'a Services \<Rightarrow> 'b Services \<Rightarrow> Event \<Rightarrow> bool" where
  "sameAnswers env1 env2 (OnCallExpression nd) = (isThenableCall env1 nd = isThenableCall env2 nd)"
| "sameAnswers env1 env2 (ExitFunction nd) = (getFunctionHeadLoc env1 nd = getFunctionHeadLoc env2 nd)"
| "sameAnswers env1 env2 e = True"

text \<open>
  The number a string of decimal digits denotes, and the decimal numeral of a number: not
  empty, digits only, no leading zero, and denoting the number.
\<close>

definition digitValue :: "char \<Rightarrow> nat" where
  "digitValue ch = of_char ch - 48"

definition decimalValue :: "string \<Rightarrow> nat" where
  "decimalValue s = foldl (\<lambda>v ch. 10 * v + digitValue ch) 0 s"

definition isDecimalOf :: "string \<Rightarrow> nat \<Rightarrow> bool" where
  "isDecimalOf s n =
     (s \<noteq> [] \<and> set s \<subseteq> set ''0123456789'' \<and> (length s = 1 \<or> hd s \<noteq> CHR ''0'') \<and>
      decimalValue s = n)"

text \<open>
  The call expressions of a function's subtree that lie inside a function nested in it.
\<close>

definition nestedCalls :: "Node \<Rightarrow> Node list" where
  "nestedCalls f =
     map fst (filter (\<lambda>(c, sc, fn). fn \<noteq> None)
                (concat (map (callSites NoScope None) (childNodes f))))"

text \<open>
  Which listener pushed each record of the stack, top first, after a sequence of listener
  invocations: \<open>enterFunction\<close> with its function node, or
  \<open>enterShortCircuitExpression\<close> with its boundary node; the exit listeners pop.
\<close>

datatype Opener = ByFunction Node | ByBoundary Node

fun openedBy :: "Opener list \<Rightarrow> Event \<Rightarrow> Opener list" where
  "openedBy os (EnterFunction nd) = ByFunction nd # os"
| "openedBy os (EnterShortCircuitExpression nd) = ByBoundary nd # os"
| "openedBy os (ExitFunction nd) = tl os"
| "openedBy os (ExitShortCircuitExpression nd) = tl os"
| "openedBy os (OnCallExpression nd) = os"

definition openerStack :: "Event list \<Rightarrow> Opener list" where
  "openerStack es = foldl openedBy [] es"

fun asyncFunctionOpener :: "Opener \<Rightarrow> bool" where
  "asyncFunctionOpener (ByFunction nd) = async nd"
| "asyncFunctionOpener (ByBoundary nd) = False"

text \<open>The records of the stack, top first.\<close>

fun records :: "ScopeInfo option \<Rightarrow> ScopeInfo list" where
  "records None = []"
| "records (Some (ScopeInfo up chk calls)) = ScopeInfo up chk calls # records up"

text \<open>
  A record is as its opener left it: its flag is true exactly when it was opened by an
  asynchronous function, and it has pending calls only in that case.
\<close>

definition openedAs :: "ScopeInfo \<Rightarrow> Opener \<Rightarrow> bool" where
  "openedAs si op =
     (hasAsyncCheck si = asyncFunctionOpener op \<and> (noAwaitCalls si = [] \<or> asyncFunctionOpener op))"

section \<open>Example trees\<close>

definition at :: "nat \<Rightarrow> nat \<Rightarrow> nat \<Rightarrow> SourceLocation" where
  "at l c1 c2 = SourceLocation (Position l c1) (Position l c2)"

text \<open>
  Example services: the type-checker node of a node is the node itself, every call
  expression has a thenable type and nothing else has, and the head of a function runs
  from its start to the start of its last child (the body).
\<close>

fun exampleHeadLoc :: "Node \<Rightarrow> SourceLocation" where
  "exampleHeadLoc (FunctionNode t l a []) = l"
| "exampleHeadLoc (FunctionNode t l a (c # cs)) = SourceLocation (start l) (start (loc (last (c # cs))))"
| "exampleHeadLoc n = loc n"

definition exampleServices :: "Node Services" where
  "exampleServices =
     \<lparr>esTreeNodeToTSNodeMap = Some, tsutilsIsThenableType = isCallExpression,
      getFunctionHeadLoc = exampleHeadLoc\<rparr>"

text \<open>
  Other services with the same answers on call expressions: type-checker nodes are line
  numbers and every type is thenable.
\<close>

definition lineServices :: "nat Services" where
  "lineServices =
     \<lparr>esTreeNodeToTSNodeMap = (\<lambda>n. Some (line (start (loc n)))),
      tsutilsIsThenableType = (\<lambda>t. True), getFunctionHeadLoc = exampleHeadLoc\<rparr>"

text \<open>The call \<open>g()\<close> at columns 21 to 24 of line 1, and \<open>obj.g()\<close>.\<close>

definition callG :: Node where
  "callG = CallExpression (at 1 21 24) (Identifier (at 1 21 22) ''g'' []) []"

definition callObjG :: Node where
  "callObjG =
     CallExpression (at 1 21 28)
       (MemberExpression (at 1 21 26) (Identifier (at 1 21 24) ''obj'' [])
          (Identifier (at 1 25 26) ''g'' [])) []"

text \<open>\<open>async function f() { g(); }\<close>\<close>

definition asyncCallsG :: Node where
  "asyncCallsG =
     FunctionNode FunctionDeclaration (at 1 0 27) True
       [Identifier (at 1 15 16) ''f'' [],
        OtherNode (at 1 19 27) [OtherNode (at 1 21 25) [callG]]]"

text \<open>\<open>function f() { g(); }\<close>, with \<open>g()\<close> at the same columns as above\<close>

definition syncCallsG :: Node where
  "syncCallsG =
     FunctionNode FunctionDeclaration (at 1 6 27) False
       [Identifier (at 1 15 16) ''f'' [],
        OtherNode (at 1 19 27) [OtherNode (at 1 21 25) [callG]]]"

text \<open>\<open>async function f() { obj.g(); }\<close>\<close>

definition asyncCallsObjG :: Node where
  "asyncCallsObjG =
     FunctionNode FunctionDeclaration (at 1 0 31) True
       [Identifier (at 1 15 16) ''f'' [],
        OtherNode (at 1 19 31) [OtherNode (at 1 21 29) [callObjG]]]"

text \<open>
  The await expression and the return statement around \<open>g()\<close> in
  \<open>async function f() { await g(); }\<close> and \<open>async function f() { return g(); }\<close>.
\<close>

definition awaitedG :: Node where
  "awaitedG = CallExpression (at 1 27 30) (Identifier (at 1 27 28) ''g'' []) []"

definition awaitG :: Node where
  "awaitG = AwaitExpression (at 1 21 30) awaitedG"

definition asyncAwaitsG :: Node where
  "asyncAwaitsG =
     FunctionNode FunctionDeclaration (at 1 0 33) True
       [Identifier (at 1 15 16) ''f'' [],
        OtherNode (at 1 19 33) [OtherNode (at 1 21 31) [awaitG]]]"

text \<open>\<open>async (aa, bb, c) => await g()\<close>, whose body is the await expression above\<close>

definition arrowAwaitsG :: Node where
  "arrowAwaitsG =
     FunctionNode ArrowFunctionExpression (at 1 0 30) True
       [Identifier (at 1 7 9) ''aa'' [], Identifier (at 1 11 13) ''bb'' [],
        Identifier (at 1 15 16) ''c'' [], awaitG]"

definition returnedG :: Node where
  "returnedG = CallExpression (at 1 28 31) (Identifier (at 1 28 29) ''g'' []) []"

definition returnG :: Node where
  "returnG = ReturnStatement (at 1 21 32) (Some returnedG)"

definition asyncReturnsG :: Node where
  "asyncReturnsG =
     FunctionNode FunctionDeclaration (at 1 0 34) True
       [Identifier (at 1 15 16) ''f'' [], OtherNode (at 1 19 34) [returnG]]"

text \<open>
  \<open>async function outer() {\<close> on line 1, \<open>async function f() { g(); }\<close> on line 2
  and \<open>}\<close> on line 3.
\<close>

definition callG2 :: Node where
  "callG2 = CallExpression (at 2 21 24) (Identifier (at 2 21 22) ''g'' []) []"

definition innerCallsG :: Node where
  "innerCallsG =
     FunctionNode FunctionDeclaration (at 2 0 27) True
       [Identifier (at 2 15 16) ''f'' [],
        OtherNode (at 2 19 27) [OtherNode (at 2 21 25) [callG2]]]"

definition outerAroundInner :: Node where
  "outerAroundInner =
     FunctionNode FunctionDeclaration (SourceLocation (Position 1 0) (Position 3 1)) True
       [Identifier (at 1 15 20) ''outer'' [],
        OtherNode (SourceLocation (Position 1 23) (Position 3 1)) [innerCallsG]]"

text \<open>
  \<open>async function h() {\<close> on line 1, \<open>return async () => { g(); };\<close> on line 2 and
  \<open>}\<close> on line 3: an async arrow function inside a return statement.
\<close>

definition arrowCallsG :: Node where
  "arrowCallsG =
     FunctionNode ArrowFunctionExpression (at 2 7 27) True
       [OtherNode (at 2 19 27) [OtherNode (at 2 21 25) [callG2]]]"

definition returnsArrow :: Node where
  "returnsArrow =
     FunctionNode FunctionDeclaration (SourceLocation (Position 1 0) (Position 3 1)) True
       [Identifier (at 1 15 16) ''h'' [],
        OtherNode (SourceLocation (Position 1 19) (Position 3 1))
          [ReturnStatement (at 2 0 28) (Some arrowCallsG)]]"

text \<open>
  \<open>async function f() {\<close> on line 1, \<open>h(g());\<close> on line 2, \<open>await k();\<close> on line 3,
  \<open>g();\<close> on line 12 and \<open>}\<close> on line 13.
\<close>

definition callGArg :: Node where
  "callGArg = CallExpression (at 2 4 7) (Identifier (at 2 4 5) ''g'' []) []"

definition callH :: Node where
  "callH = CallExpression (at 2 2 8) (Identifier (at 2 2 3) ''h'' []) [callGArg]"

definition callG12 :: Node where
  "callG12 = CallExpression (at 12 2 5) (Identifier (at 12 2 3) ''g'' []) []"

definition asyncThreeCalls :: Node where
  "asyncThreeCalls =
     FunctionNode FunctionDeclaration (SourceLocation (Position 1 0) (Position 13 1)) True
       [Identifier (at 1 15 16) ''f'' [],
        OtherNode (SourceLocation (Position 1 19) (Position 13 1))
          [OtherNode (at 2 2 9) [callH],
           OtherNode (at 3 2 12)
             [AwaitExpression (at 3 2 11)
                (CallExpression (at 3 8 11) (Identifier (at 3 8 9) ''k'' []) [])],
           OtherNode (at 12 2 6) [callG12]]]"

text \<open>
  \<open>async function outer() {\<close> on line 1, \<open>async function f() { g(); }\<close> on line 2,
  \<open>h();\<close> on line 3 and \<open>}\<close> on line 4.
\<close>

definition callH3 :: Node where
  "callH3 = CallExpression (at 3 2 5) (Identifier (at 3 2 3) ''h'' []) []"

definition outerCallsH :: Node where
  "outerCallsH =
     FunctionNode FunctionDeclaration (SourceLocation (Position 1 0) (Position 4 1)) True
       [Identifier (at 1 15 20) ''outer'' [],
        OtherNode (SourceLocation (Position 1 23) (Position 4 1))
          [innerCallsG, OtherNode (at 3 2 6) [callH3]]]"

text \<open>
  Listener invocations: into a sync function, through a return statement, then a call;
  and into an async function, a call, into an await expression, a call.
\<close>

definition syncThenCall :: "Event list" where
  "syncThenCall =
     [EnterFunction syncCallsG, EnterShortCircuitExpression returnG,
      ExitShortCircuitExpression returnG, OnCallExpression callG]"

definition asyncThenAwait :: "Event list" where
  "asyncThenAwait =
     [EnterFunction asyncCallsG, OnCallExpression callG,
      EnterShortCircuitExpression awaitG, OnCallExpression awaitedG]"

section \<open>The traversal as a function of the tree\<close>

lemma addCalls_Nil [simp]: "addCalls [] so = so"
  by (cases so) auto

lemma addCalls_addCalls [simp]: "addCalls ds (addCalls cs so) = addCalls (cs @ ds) so"
  by (cases so) auto

lemma run_Nil [simp]: "run env [] st = st"
  by (simp add: run_def)

lemma run_Cons [simp]: "run env (e # es) st = run env es (handle env e st)"
  by (simp add: run_def)

lemma run_append [simp]: "run env (es @ fs) st = run env fs (run env es st)"
  by (simp add: run_def)

lemma checkable_addCalls:
  "scopeInfo st' = addCalls ds (scopeInfo st) \<Longrightarrow> checkable st' = checkable st"
  by (cases "scopeInfo st") (auto simp: checkable_def)

lemma traversed_children:
  assumes "\<And>c. c \<in> set cs \<Longrightarrow> traversed env q c"
  shows "scopeInfo (run env (concat (map (events q) cs)) st) =
           addCalls (concat (map (scopeDescriptors env (checkable st)) cs)) (scopeInfo st) \<and>
         reports (run env (concat (map (events q) cs)) st) =
           reports st @ concat (map (subtreeReports env (checkable st)) cs)"
  using assms
proof (induction cs arbitrary: st)
  case Nil
  then show ?case by simp
next
  case (Cons c cs)
  let ?st1 = "run env (events q c) st"
  from Cons.prems have t: "traversed env q c" by simp
  then have s1: "scopeInfo ?st1 = addCalls (scopeDescriptors env (checkable st) c) (scopeInfo st)"
    and r1: "reports ?st1 = reports st @ subtreeReports env (checkable st) c"
    by (simp_all add: traversed_def)
  from s1 have c1: "checkable ?st1 = checkable st" by (rule checkable_addCalls)
  have "\<And>d. d \<in> set cs \<Longrightarrow> traversed env q d" using Cons.prems by simp
  from Cons.IH [OF this, of ?st1] show ?case
    by (simp add: s1 r1 c1)
qed

lemma function_events:
  "isFunctionNode nd \<Longrightarrow>
     enterEvents p nd = [EnterFunction nd] \<and> exitEvents p nd = [ExitFunction nd]"
  by (cases nd) auto

lemma boundary_events:
  "\<not> isFunctionNode nd \<Longrightarrow> opensScope nd \<Longrightarrow>
     (enterEvents p nd = [EnterShortCircuitExpression nd] \<and>
      exitEvents p nd = [ExitShortCircuitExpression nd]) \<or>
     (enterEvents p nd = [EnterShortCircuitExpression nd, EnterShortCircuitExpression nd] \<and>
      exitEvents p nd = [ExitShortCircuitExpression nd, ExitShortCircuitExpression nd])"
  by (cases nd) auto

lemma plain_events:
  "\<not> opensScope nd \<Longrightarrow>
     enterEvents p nd = (if isCallExpression nd then [OnCallExpression nd] else []) \<and>
     exitEvents p nd = []"
  by (cases nd) auto

lemma onCallExpression_view:
  "scopeInfo (onCallExpression env nd st) =
     addCalls (if checkable st \<and> isThenableCall env nd \<and> isIdentifier (callee nd)
               then [callDescriptor (callee nd)] else []) (scopeInfo st) \<and>
   reports (onCallExpression env nd st) =
     reports st @ (if checkable st \<and> isThenableCall env nd \<and> isIdentifier (callee nd)
                   then [callReport nd] else [])"
  by (auto simp: onCallExpression_def checkable_def isThenableCall_def isThenableType_def
      addNoAwaitCalls_def report_def callReport_def split: option.splits)

lemma concat_scopeDescriptors:
  "concat (map (scopeDescriptors env chk) cs) =
     (if chk then map (\<lambda>c. callDescriptor (callee c)) (concat (map (scopeCalls env) cs)) else [])"
  by (induction cs) (auto simp: scopeDescriptors_def)

lemma traversed_all: "traversed env p n"
proof (induction p n rule: events.induct)
  case (1 parent nd)
  note kids = traversed_children [of "childNodes nd" env "Some nd", OF 1]
  note ev = events.simps [of parent nd]
  consider (fn) "isFunctionNode nd" | (bd) "\<not> isFunctionNode nd" "opensScope nd"
    | (pl) "\<not> opensScope nd"
    by blast
  then show ?case
  proof cases
    case fn
    then have os: "opensScope nd" by (cases nd) auto
    show ?thesis
      unfolding traversed_def
    proof (intro allI)
      fix st :: "'a State"
      let ?st1 = "enterFunction nd st"
      have c1: "checkable ?st1 = async nd" and s1: "scopeInfo ?st1 = Some (ScopeInfo (scopeInfo st) (async nd) [])"
        and r1: "reports ?st1 = reports st"
        by (simp_all add: enterFunction_def checkable_def)
      let ?st2 = "run env (concat (map (events (Some nd)) (childNodes nd))) ?st1"
      have s2: "scopeInfo ?st2 = Some (ScopeInfo (scopeInfo st) (async nd)
                  (if async nd then map (\<lambda>c. callDescriptor (callee c)) (ownCalls env nd) else []))"
        using kids [of ?st1]
        by (simp add: c1 s1 concat_scopeDescriptors ownCalls_def)
      have r2: "reports ?st2 = reports st @ concat (map (subtreeReports env (async nd)) (childNodes nd))"
        using kids [of ?st1] by (simp add: c1 r1)
      show "scopeInfo (run env (events parent nd) st) =
              addCalls (scopeDescriptors env (checkable st) nd) (scopeInfo st) \<and>
            reports (run env (events parent nd) st) = reports st @ subtreeReports env (checkable st) nd"
        using fn os s2 r2
        by (simp add: ev function_events exitFunction_def report_def scopeDescriptors_def
            scopeCalls.simps [of env nd] subtreeReports.simps [of env _ nd] summaryReport_def)
    qed
  next
    case bd
    show ?thesis
      unfolding traversed_def
    proof (intro allI)
      fix st :: "'a State"
      let ?en = "run env (enterEvents parent nd) st"
      have en: "\<not> checkable ?en \<and> reports ?en = reports st \<and>
                scopeInfo (run env (exitEvents parent nd) (st'\<lparr>scopeInfo := scopeInfo ?en\<rparr>)) = scopeInfo st \<and>
                reports (run env (exitEvents parent nd) (st'\<lparr>scopeInfo := scopeInfo ?en\<rparr>)) = reports st'"
        for st' :: "'a State"
        using boundary_events [OF bd, of parent]
        by (auto simp: enterShortCircuitExpression_def exitShortCircuitExpression_def checkable_def)
      let ?st2 = "run env (concat (map (events (Some nd)) (childNodes nd))) ?en"
      have s2: "scopeInfo ?st2 = scopeInfo ?en"
        using kids [of ?en] en by (simp add: concat_scopeDescriptors)
      have r2: "reports ?st2 = reports st @ concat (map (subtreeReports env False) (childNodes nd))"
        using kids [of ?en] en by simp
      have st2: "?st2 = ?st2\<lparr>scopeInfo := scopeInfo ?en\<rparr>"
        using s2 by simp
      have "scopeInfo (run env (exitEvents parent nd) ?st2) = scopeInfo st \<and>
            reports (run env (exitEvents parent nd) ?st2) = reports ?st2"
        using en [of ?st2] st2 by metis
      then show "scopeInfo (run env (events parent nd) st) =
              addCalls (scopeDescriptors env (checkable st) nd) (scopeInfo st) \<and>
            reports (run env (events parent nd) st) = reports st @ subtreeReports env (checkable st) nd"
        using bd r2
        by (simp add: ev scopeDescriptors_def scopeCalls.simps [of env nd]
            subtreeReports.simps [of env _ nd])
    qed
  next
    case pl
    then have nf: "\<not> isFunctionNode nd" by (cases nd) auto
    show ?thesis
      unfolding traversed_def
    proof (intro allI)
      fix st :: "'a State"
      let ?v = "checkable st \<and> isViolation env nd"
      let ?en = "run env (enterEvents parent nd) st"
      have s1: "scopeInfo ?en = addCalls (if ?v then [callDescriptor (callee nd)] else []) (scopeInfo st)"
        and r1: "reports ?en = reports st @ (if ?v then [callReport nd] else [])"
        using plain_events [OF pl, of parent] onCallExpression_view [of env nd st]
        by (auto simp: isViolation_def)
      from s1 have c1: "checkable ?en = checkable st" by (rule checkable_addCalls)
      have ex: "exitEvents parent nd = []"
        using plain_events [OF pl, of parent] by simp
      let ?st2 = "run env (concat (map (events (Some nd)) (childNodes nd))) ?en"
      have s2: "scopeInfo ?st2 =
                  addCalls (concat (map (scopeDescriptors env (checkable st)) (childNodes nd))) (scopeInfo ?en)"
        and r2: "reports ?st2 = reports ?en @ concat (map (subtreeReports env (checkable st)) (childNodes nd))"
        using kids [of ?en] by (simp_all add: c1)
      show "scopeInfo (run env (events parent nd) st) =
              addCalls (scopeDescriptors env (checkable st) nd) (scopeInfo st) \<and>
            reports (run env (events parent nd) st) = reports st @ subtreeReports env (checkable st) nd"
        using pl nf
        by (simp add: ev ex s2 r2 s1 r1 concat_scopeDescriptors scopeDescriptors_def
            scopeCalls.simps [of env nd] subtreeReports.simps [of env _ nd])
    qed
  qed
qed

lemma newReports_eq: "newReports env p n st = subtreeReports env (checkable st) n"
  using traversed_all [of env p n] by (simp add: traversed_def newReports_def)

lemma reports_run_events:
  "reports (run env (events p n) st) = reports st @ newReports env p n st"
  using traversed_all [of env p n] by (simp add: traversed_def newReports_def)

lemma scopeInfo_run_events:
  "scopeInfo (run env (events p n) st) = addCalls (scopeDescriptors env (checkable st) n) (scopeInfo st)"
  using traversed_all [of env p n] by (simp add: traversed_def)

lemma map_fst_callSites: "map fst (callSites sc fn n) = callNodes n"
proof (induction sc fn n rule: callSites.induct)
  case (1 sc fn n)
  have "map (\<lambda>c. map fst (callSites (scopeWithin n sc) (functionWithin n fn) c)) (childNodes n) =
        map callNodes (childNodes n)"
    using 1 by (intro map_cong refl) blast
  then show ?case
    by (simp only: callSites.simps [of sc fn n] callNodes.simps [of n] map_append map_concat
        map_map comp_def) simp
qed

lemma fst_callSites: "(c, k) \<in> set (callSites sc fn n) \<Longrightarrow> c \<in> set (callNodes n)"
  using map_fst_callSites [of sc fn n] by (metis fst_conv image_eqI set_map)

lemma callSites_isCall: "(c, k) \<in> set (callSites sc fn n) \<Longrightarrow> isCallExpression c"
proof (induction sc fn n rule: callSites.induct)
  case (1 sc fn n)
  then show ?case
    by (auto simp: callSites.simps [of sc fn n] split: if_splits)
qed

lemma subtreeReports_nodes:
  "r \<in> set (subtreeReports env chk n) \<Longrightarrow>
     (messageId r = asyncCallNoAwait \<and> r = callReport (node r) \<and> node r \<in> set (callNodes n)) \<or>
     (messageId r = noAwaitBeforeReturnPromise \<and> isFunctionNode (node r))"
proof (induction env chk n rule: subtreeReports.induct)
  case (1 env chk n)
  from 1 show ?case
    by (auto simp: subtreeReports.simps [of env chk n] callNodes.simps [of n] callReport_def
        summaryReport_def isViolation_def split: if_splits)
qed

lemma no_reports_elsewhere:
  assumes "isCallExpression c" "c \<notin> set (callNodes n)"
  shows "filter (\<lambda>r. node r = c) (subtreeReports env chk n) = []"
proof -
  have "node r \<noteq> c" if "r \<in> set (subtreeReports env chk n)" for r
    using subtreeReports_nodes [OF that] assms by (cases c) auto
  then show ?thesis by (simp add: filter_empty_conv)
qed

lemma filter_concat_children:
  assumes "\<And>x. x \<in> set cs \<Longrightarrow> distinct (callNodes x) \<Longrightarrow> (c, k) \<in> set (callSites s f x) \<Longrightarrow>
             filter (\<lambda>r. node r = c) (subtreeReports env chk x) = R"
    and "distinct (concat (map callNodes cs))"
    and "(c, k) \<in> set (concat (map (callSites s f) cs))"
  shows "filter (\<lambda>r. node r = c) (concat (map (subtreeReports env chk) cs)) = R"
  using assms
proof (induction cs)
  case Nil
  then show ?case by simp
next
  case (Cons x xs)
  have isc: "isCallExpression c"
    using Cons.prems(3) by (auto dest: callSites_isCall)
  from Cons.prems(2) have dx: "distinct (callNodes x)" and dxs: "distinct (concat (map callNodes xs))"
    and disj: "set (callNodes x) \<inter> (\<Union>y\<in>set xs. set (callNodes y)) = {}"
    by auto
  show ?case
  proof (cases "(c, k) \<in> set (callSites s f x)")
    case True
    then have here: "filter (\<lambda>r. node r = c) (subtreeReports env chk x) = R"
      using Cons.prems(1) dx by simp
    from True have "c \<in> set (callNodes x)" by (rule fst_callSites)
    with disj have "\<And>y. y \<in> set xs \<Longrightarrow> c \<notin> set (callNodes y)" by auto
    then have "\<And>y. y \<in> set xs \<Longrightarrow> filter (\<lambda>r. node r = c) (subtreeReports env chk y) = []"
      using isc by (simp add: no_reports_elsewhere)
    then have "filter (\<lambda>r. node r = c) (concat (map (subtreeReports env chk) xs)) = []"
      by (induction xs) auto
    with here show ?thesis by simp
  next
    case False
    with Cons.prems(3) obtain y where y: "y \<in> set xs" "(c, k) \<in> set (callSites s f y)"
      by auto
    then have "c \<in> set (callNodes y)" by (auto dest: fst_callSites)
    with disj y have "c \<notin> set (callNodes x)" by auto
    then have "filter (\<lambda>r. node r = c) (subtreeReports env chk x) = []"
      using isc by (simp add: no_reports_elsewhere)
    moreover have "filter (\<lambda>r. node r = c) (concat (map (subtreeReports env chk) xs)) = R"
      using Cons.IH Cons.prems(1) dxs y False Cons.prems(3) by auto
    ultimately show ?thesis by simp
  qed
qed

lemma scopeWithin_checkable:
  "(scopeWithin n sc = FunctionScope True) =
     (if isFunctionNode n then async n else if opensScope n then False else sc = FunctionScope True)"
  by (cases n) auto

lemma call_site_reports:
  assumes "distinct (callNodes n)" "(c, sc', fn') \<in> set (callSites sc fn n)"
  shows "filter (\<lambda>r. node r = c) (subtreeReports env (sc = FunctionScope True) n) =
           (if sc' = FunctionScope True \<and> isViolation env c then [callReport c] else [])"
  using assms
proof (induction sc fn n rule: callSites.induct)
  case (1 sc fn n)
  let ?R = "if sc' = FunctionScope True \<and> isViolation env c then [callReport c] else []"
  let ?chk = "scopeWithin n sc = FunctionScope True"
  have isc: "isCallExpression c" using "1.prems"(2) by (rule callSites_isCall)
  from "1.prems"(1) have dk: "distinct (concat (map callNodes (childNodes n)))"
    and notin: "isCallExpression n \<Longrightarrow> n \<notin> (\<Union>y\<in>set (childNodes n). set (callNodes y))"
    by (auto simp: callNodes.simps [of n] split: if_splits)
  show ?case
  proof (cases "c = n \<and> sc' = sc \<and> fn' = fn")
    case True
    with isc have nc: "isCallExpression n" by simp
    then have plain: "\<not> isFunctionNode n" "\<not> opensScope n" by (cases n; simp)+
    from notin [OF nc] True have "\<And>y. y \<in> set (childNodes n) \<Longrightarrow> c \<notin> set (callNodes y)" by auto
    then have "\<And>y. y \<in> set (childNodes n) \<Longrightarrow>
                 filter (\<lambda>r. node r = c) (subtreeReports env (sc = FunctionScope True) y) = []"
      using isc by (simp add: no_reports_elsewhere)
    then have "filter (\<lambda>r. node r = c)
                 (concat (map (subtreeReports env (sc = FunctionScope True)) (childNodes n))) = []"
      by (induction "childNodes n") (auto simp: filter_empty_conv)
    then show ?thesis
      using True plain by (simp add: subtreeReports.simps [of env _ n] callReport_def)
  next
    case False
    have kid: "(c, sc', fn') \<in> set (concat (map (callSites (scopeWithin n sc) (functionWithin n fn)) (childNodes n)))"
    proof -
      from "1.prems"(2) have "(c, sc', fn') \<in> set (callSites sc fn n)" .
      then show ?thesis using False
        by (simp add: callSites.simps [of sc fn n] split: if_splits)
    qed
    have cn: "c \<noteq> n"
    proof
      assume "c = n"
      with kid obtain y where "y \<in> set (childNodes n)" "n \<in> set (callNodes y)"
        by (auto dest: fst_callSites)
      with notin isc \<open>c = n\<close> show False by auto
    qed
    have kids: "filter (\<lambda>r. node r = c) (concat (map (subtreeReports env ?chk) (childNodes n))) = ?R"
      by (rule filter_concat_children [where k = "(sc', fn')", OF _ dk kid]) (rule "1.IH")
    show ?thesis
      using kids cn
      by (cases "isFunctionNode n"; cases "opensScope n";
          simp add: subtreeReports.simps [of env _ n] scopeWithin_checkable callReport_def
            summaryReport_def)
  qed
qed

lemma scopeCalls_sites:
  "c \<in> set (scopeCalls env n) \<Longrightarrow> (c, sc, fn) \<in> set (callSites sc fn n) \<and> isViolation env c"
proof (induction env n rule: scopeCalls.induct)
  case (1 env n)
  show ?case
  proof (cases "opensScope n")
    case True
    with 1 show ?thesis by (simp add: scopeCalls.simps [of env n])
  next
    case False
    then have same: "scopeWithin n sc = sc" "functionWithin n fn = fn"
      by (cases n; simp)+
    from "1.prems" False consider (here) "c = n" "isViolation env n"
      | (below) x where "x \<in> set (childNodes n)" "c \<in> set (scopeCalls env x)"
      by (auto simp: scopeCalls.simps [of env n] split: if_splits)
    then show ?thesis
    proof cases
      case here
      then show ?thesis
        by (simp add: callSites.simps [of sc fn n] isViolation_def)
    next
      case below
      with "1.IH" [OF False] have "(c, sc, fn) \<in> set (callSites sc fn x) \<and> isViolation env c"
        by blast
      with below(1) show ?thesis
        by (auto simp: callSites.simps [of sc fn n] same)
    qed
  qed
qed

lemma ownCalls_sites:
  assumes "isFunctionNode f" "c \<in> set (ownCalls env f)"
  shows "(c, FunctionScope (async f), Some (async f)) \<in> set (callSites sc fn f) \<and> isViolation env c"
proof -
  from assms(1) have w: "scopeWithin f sc = FunctionScope (async f)"
    "functionWithin f fn = Some (async f)" "\<not> isCallExpression f"
    by (cases f; simp)+
  from assms(2) obtain x where "x \<in> set (childNodes f)" "c \<in> set (scopeCalls env x)"
    by (auto simp: ownCalls_def)
  then show ?thesis
    using scopeCalls_sites [of c env x "FunctionScope (async f)" "Some (async f)"]
    by (auto simp: callSites.simps [of sc fn f] w)
qed

lemma report_node_size: "r \<in> set (subtreeReports env chk n) \<Longrightarrow> size (node r) \<le> size n"
proof (induction env chk n rule: subtreeReports.induct)
  case (1 env chk n)
  have kid: "r \<in> set (subtreeReports env k x) \<Longrightarrow> x \<in> set (childNodes n) \<Longrightarrow>
             (k = async n \<and> isFunctionNode n) \<or> (k = False \<and> \<not> isFunctionNode n \<and> opensScope n) \<or>
             (k = chk \<and> \<not> isFunctionNode n \<and> \<not> opensScope n) \<Longrightarrow> size (node r) \<le> size n" for k x
    using "1.IH" childNodes_size [of x n] by fastforce
  from "1.prems" show ?case
    by (auto simp: subtreeReports.simps [of env chk n] callReport_def summaryReport_def
        split: if_splits intro: kid)
qed

lemma analyze_eq: "analyze env tree = subtreeReports env False tree"
  using reports_run_events [of env None tree initialState] newReports_eq [of env None tree initialState]
  by (simp add: analyze_def initialState_def checkable_def)

lemma onCallExpression_unchecked: "\<not> checkable st \<Longrightarrow> onCallExpression env nd st = st"
  by (auto simp: onCallExpression_def checkable_def split: option.splits)

lemma callSites_function_async:
  "(c, sc', fn') \<in> set (callSites sc fn n) \<Longrightarrow> (sc = FunctionScope True \<longrightarrow> fn = Some True) \<Longrightarrow>
     sc' = FunctionScope True \<longrightarrow> fn' = Some True"
proof (induction sc fn n rule: callSites.induct)
  case (1 sc fn n)
  have inv: "scopeWithin n sc = FunctionScope True \<longrightarrow> functionWithin n fn = Some True"
    using "1.prems"(2) by (cases n) auto
  from "1.prems"(1) consider "sc' = sc" "fn' = fn"
    | x where "x \<in> set (childNodes n)"
        "(c, sc', fn') \<in> set (callSites (scopeWithin n sc) (functionWithin n fn) x)"
    by (auto simp: callSites.simps [of sc fn n] split: if_splits)
  then show ?case
  proof cases
    case 1
    with "1.prems"(2) show ?thesis by simp
  next
    case 2
    with "1.IH" inv show ?thesis by blast
  qed
qed

lemma unchecked_site_silent:
  assumes "distinct (callNodes tree)" "(c, sc, fn) \<in> set (callSites NoScope None tree)"
    and "sc \<noteq> FunctionScope True \<or> \<not> isViolation env c"
  shows "c \<notin> node ` set (analyze env tree)"
proof -
  have "filter (\<lambda>r. node r = c) (analyze env tree) = []"
    using call_site_reports [OF assms(1,2), of env] assms(3) by (auto simp: analyze_eq)
  then show ?thesis
    by (auto simp: filter_empty_conv)
qed

lemma function_scopeCalls: "isFunctionNode g \<Longrightarrow> scopeCalls env g = []"
  by (cases g) (simp_all add: scopeCalls.simps)

lemma summaries_unchanged:
  "(\<forall>f. e \<noteq> ExitFunction f) \<Longrightarrow>
     filter (\<lambda>r. messageId r = noAwaitBeforeReturnPromise) (reports (handle env e st)) =
     filter (\<lambda>r. messageId r = noAwaitBeforeReturnPromise) (reports st)"
proof (cases e)
  case (OnCallExpression nd)
  then show ?thesis
    using onCallExpression_view [of env nd st] by (simp add: callReport_def)
qed (auto simp: enterFunction_def enterShortCircuitExpression_def
      exitShortCircuitExpression_def split: option.splits)

lemma handle_same_answers:
  assumes "scopeInfo st1 = scopeInfo st2" "reports st1 = reports st2" "sameAnswers env1 env2 e"
  shows "scopeInfo (handle env1 e st1) = scopeInfo (handle env2 e st2) \<and>
         reports (handle env1 e st1) = reports (handle env2 e st2)"
proof (cases e)
  case (OnCallExpression nd)
  from assms(1) have "checkable st1 = checkable st2" by (simp add: checkable_def)
  then show ?thesis
    using assms OnCallExpression onCallExpression_view [of env1 nd st1]
      onCallExpression_view [of env2 nd st2] by simp
next
  case (ExitFunction nd)
  then show ?thesis
    using assms by (simp add: exitFunction_def report_def split: option.splits)
qed (use assms in \<open>simp_all add: enterFunction_def enterShortCircuitExpression_def
      exitShortCircuitExpression_def split: option.splits\<close>)

lemma run_same_answers:
  "scopeInfo st1 = scopeInfo st2 \<Longrightarrow> reports st1 = reports st2 \<Longrightarrow>
   \<forall>e\<in>set es. sameAnswers env1 env2 e \<Longrightarrow>
     scopeInfo (run env1 es st1) = scopeInfo (run env2 es st2) \<and>
     reports (run env1 es st1) = reports (run env2 es st2)"
proof (induction es arbitrary: st1 st2)
  case Nil
  then show ?case by simp
next
  case (Cons e es)
  from Cons.prems have "sameAnswers env1 env2 e" by simp
  from handle_same_answers [OF Cons.prems(1,2) this]
  show ?case using Cons.IH [of "handle env1 e st1" "handle env2 e st2"] Cons.prems(3) by simp
qed

lemma stackInv_Some: "stackInv (Some si) = ((hasAsyncCheck si \<or> noAwaitCalls si = []) \<and> stackInv (upper si))"
  by (cases si) simp

lemma stackInv_addCalls:
  "stackInv so \<Longrightarrow> (ds \<noteq> [] \<longrightarrow> (\<exists>si. so = Some si \<and> hasAsyncCheck si)) \<Longrightarrow> stackInv (addCalls ds so)"
  by (cases so) (auto simp: stackInv_Some)

lemma handle_stackInv: "stackInv (scopeInfo st) \<Longrightarrow> stackInv (scopeInfo (handle env e st))"
proof (cases e)
  case (OnCallExpression nd)
  assume inv: "stackInv (scopeInfo st)"
  let ?ds = "if checkable st \<and> isThenableCall env nd \<and> isIdentifier (callee nd)
             then [callDescriptor (callee nd)] else []"
  have "?ds \<noteq> [] \<longrightarrow> (\<exists>si. scopeInfo st = Some si \<and> hasAsyncCheck si)"
    by (auto simp: checkable_def split: option.splits)
  with inv have "stackInv (addCalls ?ds (scopeInfo st))" by (rule stackInv_addCalls)
  then show ?thesis
    using OnCallExpression onCallExpression_view [of env nd st] by simp
qed (auto simp: enterFunction_def enterShortCircuitExpression_def exitFunction_def report_def
      exitShortCircuitExpression_def stackInv_Some split: option.splits)

lemma run_stackInv: "stackInv (scopeInfo st) \<Longrightarrow> stackInv (scopeInfo (run env es st))"
  by (induction es arbitrary: st) (simp_all add: handle_stackInv)



lemma digitValue_digit: "n < 10 \<Longrightarrow> digitValue (''0123456789'' ! n) = n"
proof -
  assume n: "n < 10"
  have table: "map (\<lambda>k. digitValue (''0123456789'' ! k)) [0..<10] = [0..<10]"
    by code_simp
  from n have "map (\<lambda>k. digitValue (''0123456789'' ! k)) [0..<10] ! n =
               digitValue (''0123456789'' ! n)"
    by (simp del: upt_Suc)
  with n show ?thesis
    by (simp only: table) (simp del: upt_Suc)
qed

lemma decimalValue_numberToString: "decimalValue (numberToString n) = n"
proof (induction n rule: numberToString.induct)
  case (1 n)
  show ?case
  proof (cases "n < 10")
    case True
    then show ?thesis
      by (simp add: numberToString.simps [of n] decimalValue_def digitValue_digit)
  next
    case False
    with 1 have "decimalValue (numberToString (n div 10)) = n div 10" by simp
    then show ?thesis
      using False
      by (simp add: numberToString.simps [of n] decimalValue_def digitValue_digit)
  qed
qed

lemma digit_in_digits: "n < 10 \<Longrightarrow> ''0123456789'' ! n \<in> set ''0123456789''"
  by (rule nth_mem) simp

lemma digit_nonzero: "0 < n \<Longrightarrow> n < 10 \<Longrightarrow> ''0123456789'' ! n \<noteq> CHR ''0''"
proof
  assume n: "0 < n" "n < 10" and zero: "''0123456789'' ! n = CHR ''0''"
  have "digitValue (CHR ''0'') = 0"
    by (simp add: digitValue_def)
  with zero have "digitValue (''0123456789'' ! n) = 0"
    by (simp only:)
  with n show False
    by (simp only: digitValue_digit)
qed

lemma numberToString_digits:
  "numberToString n \<noteq> [] \<and> set (numberToString n) \<subseteq> set ''0123456789'' \<and>
   (0 < n \<longrightarrow> hd (numberToString n) \<noteq> CHR ''0'') \<and> (length (numberToString n) = 1) = (n < 10)"
proof (induction n rule: numberToString.induct)
  case (1 n)
  show ?case
  proof (cases "n < 10")
    case True
    then show ?thesis
      using digit_in_digits [of n] digit_nonzero [of n]
      by (simp add: numberToString.simps [of n])
  next
    case False
    then have pos: "0 < n div 10" by simp
    have d: "''0123456789'' ! (n mod 10) \<in> set ''0123456789''"
      by (rule digit_in_digits) simp
    from 1 False pos have ih: "numberToString (n div 10) \<noteq> []"
      "set (numberToString (n div 10)) \<subseteq> set ''0123456789''"
      "hd (numberToString (n div 10)) \<noteq> CHR ''0''"
      by simp_all
    have eq: "numberToString n = numberToString (n div 10) @ [''0123456789'' ! (n mod 10)]"
      using False by (simp add: numberToString.simps [of n])
    have len: "length (numberToString n) \<noteq> 1"
      using ih(1) by (simp add: eq)
    have sub: "set (numberToString n) \<subseteq> set ''0123456789''"
      unfolding eq using ih(2) d by (simp only: set_append set_simps Un_subset_iff) blast
    have hd: "hd (numberToString n) \<noteq> CHR ''0''"
      unfolding eq using ih(1,3) by simp
    have ne: "numberToString n \<noteq> []"
      unfolding eq by simp
    show ?thesis
      using sub hd ne len False by blast
  qed
qed

lemma numberToString_decimal: "isDecimalOf (numberToString n) n"
  using numberToString_digits [of n] decimalValue_numberToString [of n]
  by (cases "n = 0") (auto simp: isDecimalOf_def)

lemma function_summary:
  assumes "isFunctionNode f"
  shows "filter (\<lambda>r. node r = f) (newReports env p f st) =
           (if async f \<and> ownCalls env f \<noteq> []
            then [Report f (getFunctionHeadLoc env f) noAwaitBeforeReturnPromise
                    (Some (map (\<lambda>c. name (callee c) @ ''(line: '' @
                                       numberToString (line (start (loc (callee c)))) @ '')'')
                             (ownCalls env f)))]
            else [])"
proof -
  have "size (node r) < size f"
    if "r \<in> set (concat (map (subtreeReports env k) (childNodes f)))" for r k
  proof -
    from that obtain x where "x \<in> set (childNodes f)" "r \<in> set (subtreeReports env k x)"
      by auto
    then show ?thesis
      using report_node_size [of r env k x] childNodes_size [of x f] by simp
  qed
  then have "filter (\<lambda>r. node r = f) (concat (map (subtreeReports env k) (childNodes f))) = []" for k
    unfolding filter_empty_conv by blast
  then show ?thesis
    using assms
    by (simp add: newReports_eq subtreeReports.simps [of env _ f] summaryReport_def
        callDescriptor_def)
qed

lemma own_not_nested:
  assumes "isFunctionNode f" "distinct (callNodes f)" "c \<in> set (nestedCalls f)"
  shows "c \<notin> set (ownCalls env f)"
proof
  assume "c \<in> set (ownCalls env f)"
  let ?xs = "concat (map (callSites NoScope None) (childNodes f))"
  from \<open>c \<in> set (ownCalls env f)\<close> obtain x where "x \<in> set (childNodes f)" "c \<in> set (scopeCalls env x)"
    by (auto simp: ownCalls_def)
  then have own: "(c, NoScope, None) \<in> set ?xs"
    using scopeCalls_sites [of c env x NoScope None] by auto
  from assms(3) have "\<exists>sc fn. (c, sc, fn) \<in> set ?xs \<and> fn \<noteq> None"
    unfolding nestedCalls_def by (force simp del: set_concat)
  then obtain sc fn where nested: "(c, sc, fn) \<in> set ?xs" "fn \<noteq> None"
    by blast
  have "map fst ?xs = concat (map callNodes (childNodes f))"
    by (simp add: map_concat comp_def map_fst_callSites)
  also have "\<dots> = callNodes f"
    using assms(1) by (cases f) (simp_all add: callNodes.simps)
  finally have "distinct (map fst ?xs)" using assms(2) by simp
  from eq_key_imp_eq_value [OF this own nested(1)] nested(2) show False by simp
qed

lemma records_Some: "records (Some si) = si # records (upper si)"
  by (cases si) simp

lemma list_all2_tl: "list_all2 P xs ys \<Longrightarrow> list_all2 P (tl xs) (tl ys)"
  by (cases xs; cases ys) auto

lemma handle_openedAs:
  assumes "list_all2 openedAs (records (scopeInfo st)) os"
  shows "list_all2 openedAs (records (scopeInfo (handle env e st))) (openedBy os e)"
proof (cases e)
  case (EnterFunction nd)
  then show ?thesis
    using assms by (simp add: enterFunction_def records_Some openedAs_def)
next
  case (EnterShortCircuitExpression nd)
  then show ?thesis
    using assms by (simp add: enterShortCircuitExpression_def records_Some openedAs_def)
next
  case (ExitFunction nd)
  have "records (scopeInfo (exitFunction env nd st)) = tl (records (scopeInfo st))"
    by (simp add: exitFunction_def report_def records_Some split: option.splits)
  then show ?thesis
    using ExitFunction list_all2_tl [OF assms] by simp
next
  case (ExitShortCircuitExpression nd)
  have "records (scopeInfo (exitShortCircuitExpression nd st)) = tl (records (scopeInfo st))"
    by (simp add: exitShortCircuitExpression_def records_Some split: option.splits)
  then show ?thesis
    using ExitShortCircuitExpression list_all2_tl [OF assms] by simp
next
  case (OnCallExpression nd)
  let ?ds = "if checkable st \<and> isThenableCall env nd \<and> isIdentifier (callee nd)
             then [callDescriptor (callee nd)] else []"
  have s: "scopeInfo (onCallExpression env nd st) = addCalls ?ds (scopeInfo st)"
    using onCallExpression_view [of env nd st] by simp
  show ?thesis
  proof (cases "scopeInfo st")
    case None
    with assms s OnCallExpression show ?thesis by simp
  next
    case (Some si)
    with assms obtain op os' where os: "os = op # os'" "openedAs si op"
      "list_all2 openedAs (records (upper si)) os'"
      by (auto simp: records_Some list_all2_Cons1)
    have "?ds \<noteq> [] \<longrightarrow> hasAsyncCheck si"
      using Some by (simp add: checkable_def)
    with os(2) have "openedAs (ScopeInfo (upper si) (hasAsyncCheck si) (noAwaitCalls si @ ?ds)) op"
      by (auto simp: openedAs_def)
    with os Some s OnCallExpression show ?thesis
      by (simp add: records_Some)
  qed
qed

lemma run_openedAs:
  "list_all2 openedAs (records (scopeInfo st)) os \<Longrightarrow>
     list_all2 openedAs (records (scopeInfo (run env es st))) (foldl openedBy os es)"
  by (induction es arbitrary: st os) (simp_all add: handle_openedAs)

section \<open>The claims\<close>

text \<open>
  C1. For an asynchronous function with at least one un-awaited thenable call through a
  plain identifier callee that is not nested inside a suspension boundary (or a nested
  function, which is a scope of its own): while the function is traversed, from any
  state, exactly one report is sent for each such call, the \<open>asyncCallNoAwait\<close> report
  at the callee's location, and exactly one report is sent for the function itself, the
  \<open>noAwaitBeforeReturnPromise\<close> report at the function's head location. Its data lists
  all such calls in source order, one entry for each: the callee's name, then \<open>(line: \<close>,
  the decimal numeral of the callee's line, and \<open>)\<close>.
\<close>

theorem async_function_reports:
  assumes "isFunctionNode f" and "async f" and "ownCalls env f \<noteq> []" and "distinct (callNodes f)"
  shows "reports (run env (events p f) st) = reports st @ newReports env p f st \<and>
         (\<forall>c\<in>set (ownCalls env f).
            filter (\<lambda>r. node r = c) (newReports env p f st) =
              [Report c (loc (callee c)) asyncCallNoAwait None]) \<and>
         filter (\<lambda>r. node r = f) (newReports env p f st) =
           [Report f (getFunctionHeadLoc env f) noAwaitBeforeReturnPromise
              (Some (map (\<lambda>c. name (callee c) @ ''(line: '' @
                                 numberToString (line (start (loc (callee c)))) @ '')'')
                       (ownCalls env f)))] \<and>
         isDecimalOf (numberToString n) n"
proof (intro conjI ballI)
  show "reports (run env (events p f) st) = reports st @ newReports env p f st"
    by (rule reports_run_events)
next
  fix c assume c: "c \<in> set (ownCalls env f)"
  have site: "(c, FunctionScope True, Some True) \<in> set (callSites (FunctionScope (checkable st)) None f)"
    and v: "isViolation env c"
    using ownCalls_sites [OF assms(1) c, of "FunctionScope (checkable st)" None] assms(2) by simp_all
  from call_site_reports [OF assms(4) site, of env] v
  show "filter (\<lambda>r. node r = c) (newReports env p f st) =
          [Report c (loc (callee c)) asyncCallNoAwait None]"
    by (simp add: newReports_eq callReport_def)
next
  have "size (node r) < size f"
    if "r \<in> set (concat (map (subtreeReports env True) (childNodes f)))" for r
  proof -
    from that obtain x where "x \<in> set (childNodes f)" "r \<in> set (subtreeReports env True x)"
      by auto
    then show ?thesis
      using report_node_size [of r env True x] childNodes_size [of x f] by simp
  qed
  then have "filter (\<lambda>r. node r = f) (concat (map (subtreeReports env True) (childNodes f))) = []"
    unfolding filter_empty_conv by blast
  then show "filter (\<lambda>r. node r = f) (newReports env p f st) =
          [Report f (getFunctionHeadLoc env f) noAwaitBeforeReturnPromise
             (Some (map (\<lambda>c. name (callee c) @ ''(line: '' @
                                numberToString (line (start (loc (callee c)))) @ '')'')
                      (ownCalls env f)))]"
    using assms(1,2,3)
    by (simp add: newReports_eq subtreeReports.simps [of env _ f] summaryReport_def
        callDescriptor_def)
next
  show "isDecimalOf (numberToString n) n" by (rule numberToString_decimal)
qed

theorem async_function_reports_witness:
  "isFunctionNode asyncThreeCalls \<and> async asyncThreeCalls \<and>
   ownCalls exampleServices asyncThreeCalls = [callH, callGArg, callG12] \<and>
   distinct (callNodes asyncThreeCalls) \<and>
   filter (\<lambda>r. node r = callH) (newReports exampleServices None asyncThreeCalls initialState) =
     [Report callH (at 2 2 3) asyncCallNoAwait None] \<and>
   filter (\<lambda>r. node r = callGArg) (newReports exampleServices None asyncThreeCalls initialState) =
     [Report callGArg (at 2 4 5) asyncCallNoAwait None] \<and>
   filter (\<lambda>r. node r = callG12) (newReports exampleServices None asyncThreeCalls initialState) =
     [Report callG12 (at 12 2 3) asyncCallNoAwait None] \<and>
   filter (\<lambda>r. node r = asyncThreeCalls)
       (newReports exampleServices None asyncThreeCalls initialState) =
     [Report asyncThreeCalls (at 1 0 19) noAwaitBeforeReturnPromise
        (Some [''h(line: 2)'', ''g(line: 2)'', ''g(line: 12)''])] \<and>
   isDecimalOf ''12'' 12 \<and>
   analyze exampleServices asyncThreeCalls =
     [Report callH (at 2 2 3) asyncCallNoAwait None,
      Report callGArg (at 2 4 5) asyncCallNoAwait None,
      Report callG12 (at 12 2 3) asyncCallNoAwait None,
      Report asyncThreeCalls (at 1 0 19) noAwaitBeforeReturnPromise
        (Some [''h(line: 2)'', ''g(line: 2)'', ''g(line: 12)''])]"
proof -
  have h1: "isFunctionNode asyncThreeCalls" by code_simp
  have h2: "async asyncThreeCalls" by code_simp
  have h3: "ownCalls exampleServices asyncThreeCalls = [callH, callGArg, callG12]" by code_simp
  have h4: "distinct (callNodes asyncThreeCalls)" by code_simp
  have e1: "loc (callee callH) = at 2 2 3" "loc (callee callGArg) = at 2 4 5"
    "loc (callee callG12) = at 12 2 3" by code_simp+
  have e2: "getFunctionHeadLoc exampleServices asyncThreeCalls = at 1 0 19" by code_simp
  have pay: "map (\<lambda>c. name (callee c) @ ''(line: '' @
                          numberToString (line (start (loc (callee c)))) @ '')'')
               [callH, callGArg, callG12] = [''h(line: 2)'', ''g(line: 2)'', ''g(line: 12)'']"
    by code_simp
  have e4: "numberToString 12 = ''12''" by code_simp
  have e5: "analyze exampleServices asyncThreeCalls =
     [Report callH (at 2 2 3) asyncCallNoAwait None,
      Report callGArg (at 2 4 5) asyncCallNoAwait None,
      Report callG12 (at 12 2 3) asyncCallNoAwait None,
      Report asyncThreeCalls (at 1 0 19) noAwaitBeforeReturnPromise
        (Some [''h(line: 2)'', ''g(line: 2)'', ''g(line: 12)''])]" by code_simp
  from h3 have h3': "ownCalls exampleServices asyncThreeCalls \<noteq> []" by simp
  note inst = async_function_reports [OF h1 h2 h3' h4, of None initialState 12, unfolded h3 pay e2 e4]
  from inst have each: "\<forall>c\<in>set [callH, callGArg, callG12].
      filter (\<lambda>r. node r = c) (newReports exampleServices None asyncThreeCalls initialState) =
        [Report c (loc (callee c)) asyncCallNoAwait None]"
    and summary: "filter (\<lambda>r. node r = asyncThreeCalls)
       (newReports exampleServices None asyncThreeCalls initialState) =
     [Report asyncThreeCalls (at 1 0 19) noAwaitBeforeReturnPromise
        (Some [''h(line: 2)'', ''g(line: 2)'', ''g(line: 12)''])]"
    and dec: "isDecimalOf ''12'' 12"
    by blast+
  from each have c1: "filter (\<lambda>r. node r = callH)
      (newReports exampleServices None asyncThreeCalls initialState) =
        [Report callH (at 2 2 3) asyncCallNoAwait None]"
    and c2: "filter (\<lambda>r. node r = callGArg)
      (newReports exampleServices None asyncThreeCalls initialState) =
        [Report callGArg (at 2 4 5) asyncCallNoAwait None]"
    and c3: "filter (\<lambda>r. node r = callG12)
      (newReports exampleServices None asyncThreeCalls initialState) =
        [Report callG12 (at 12 2 3) asyncCallNoAwait None]"
    by (simp_all add: e1)
  show ?thesis
    using h1 h2 h3 h4 c1 c2 c3 summary dec e5 by blast
qed

text \<open>
  C2. When the \<open>CallExpression\<close> listener is invoked while no scope is active, or while
  \<open>hasAsyncCheck\<close> of the top scope is false, it returns the state as it was: no type is
  asked for (\<open>typeQueries\<close> is unchanged) and nothing is reported. In particular, in the
  analysis of a whole tree, a call whose nearest enclosing function is not asynchronous
  is the node of no report, whatever the services say about its type.
\<close>

theorem unchecked_call_ignored:
  "(scopeInfo st = None \<or> (\<exists>si. scopeInfo st = Some si \<and> \<not> hasAsyncCheck si) \<longrightarrow>
      onCallExpression env nd st = st) \<and>
   (distinct (callNodes tree) \<and> (c, sc, Some False) \<in> set (callSites NoScope None tree) \<longrightarrow>
      c \<notin> node ` set (analyze env tree))"
proof (intro conjI impI)
  assume "scopeInfo st = None \<or> (\<exists>si. scopeInfo st = Some si \<and> \<not> hasAsyncCheck si)"
  then have "\<not> checkable st" by (auto simp: checkable_def)
  then show "onCallExpression env nd st = st" by (rule onCallExpression_unchecked)
next
  assume a: "distinct (callNodes tree) \<and> (c, sc, Some False) \<in> set (callSites NoScope None tree)"
  then have "sc \<noteq> FunctionScope True"
    using callSites_function_async [of c sc "Some False" NoScope None tree] by auto
  with a show "c \<notin> node ` set (analyze env tree)"
    using unchecked_site_silent [of tree c sc "Some False" env] by simp
qed

theorem unchecked_call_ignored_witness:
  "scopeInfo (initialState :: Node State) = None \<and>
   onCallExpression exampleServices callG initialState = initialState \<and>
   distinct (callNodes syncCallsG) \<and>
   (callG, FunctionScope False, Some False) \<in> set (callSites NoScope None syncCallsG) \<and>
   isViolation exampleServices callG \<and>
   callG \<notin> node ` set (analyze exampleServices syncCallsG)"
proof -
  have h1: "scopeInfo (initialState :: Node State) = None" by (simp add: initialState_def)
  have h2: "distinct (callNodes syncCallsG)" by code_simp
  have h3: "(callG, FunctionScope False, Some False) \<in> set (callSites NoScope None syncCallsG)"
    by code_simp
  have h4: "isViolation exampleServices callG" by code_simp
  from unchecked_call_ignored [of initialState exampleServices callG syncCallsG callG "FunctionScope False"]
  show ?thesis using h1 h2 h3 h4 by simp
qed

text \<open>
  C3. A call whose callee is not a plain identifier is never recorded and never reported:
  the \<open>CallExpression\<close> listener leaves the scope stack and the reports as they were,
  also when the type of the call is thenable, and in the analysis of a whole tree such a
  call is the node of no report.
\<close>

theorem non_identifier_callee_ignored:
  "(\<not> isIdentifier (callee nd) \<longrightarrow>
      scopeInfo (onCallExpression env nd st) = scopeInfo st \<and>
      reports (onCallExpression env nd st) = reports st) \<and>
   (distinct (callNodes tree) \<and> c \<in> set (callNodes tree) \<and> \<not> isIdentifier (callee c) \<longrightarrow>
      c \<notin> node ` set (analyze env tree))"
proof (intro conjI impI)
  assume "\<not> isIdentifier (callee nd)"
  then show "scopeInfo (onCallExpression env nd st) = scopeInfo st"
    and "reports (onCallExpression env nd st) = reports st"
    using onCallExpression_view [of env nd st] by simp_all
next
  assume a: "distinct (callNodes tree) \<and> c \<in> set (callNodes tree) \<and> \<not> isIdentifier (callee c)"
  then have "c \<in> fst ` set (callSites NoScope None tree)"
    using map_fst_callSites [of NoScope None tree] by (metis set_map)
  then obtain sc fn where "(c, sc, fn) \<in> set (callSites NoScope None tree)" by auto
  with a show "c \<notin> node ` set (analyze env tree)"
    using unchecked_site_silent [of tree c sc fn env] by (simp add: isViolation_def)
qed

theorem non_identifier_callee_ignored_witness:
  "\<not> isIdentifier (callee callObjG) \<and> isThenableCall exampleServices callObjG \<and>
   checkable (enterFunction asyncCallsObjG (initialState :: Node State)) \<and>
   scopeInfo (onCallExpression exampleServices callObjG (enterFunction asyncCallsObjG initialState)) =
     scopeInfo (enterFunction asyncCallsObjG (initialState :: Node State)) \<and>
   reports (onCallExpression exampleServices callObjG (enterFunction asyncCallsObjG initialState)) =
     reports (enterFunction asyncCallsObjG (initialState :: Node State)) \<and>
   distinct (callNodes asyncCallsObjG) \<and> callObjG \<in> set (callNodes asyncCallsObjG) \<and>
   callObjG \<notin> node ` set (analyze exampleServices asyncCallsObjG)"
proof -
  have h1: "\<not> isIdentifier (callee callObjG)" by code_simp
  have h2: "isThenableCall exampleServices callObjG" by code_simp
  have h3: "checkable (enterFunction asyncCallsObjG (initialState :: Node State))" by code_simp
  have h4: "distinct (callNodes asyncCallsObjG)" by code_simp
  have h5: "callObjG \<in> set (callNodes asyncCallsObjG)" by code_simp
  from non_identifier_callee_ignored [of callObjG exampleServices
      "enterFunction asyncCallsObjG initialState" asyncCallsObjG callObjG]
  show ?thesis using h1 h2 h3 h4 h5 by simp
qed

text \<open>
  C4. Entering a suspension boundary pushes a record with \<open>hasAsyncCheck\<close> false and no
  pending calls, whatever the enclosing scope is, and the \<open>CallExpression\<close> listener does
  nothing right after it; \<open>enterShortCircuitExpression\<close> is the only listener the table
  invokes on entering an await expression, a return statement or a \<open>for await\<close> loop
  (twice for the await expression that is the child of an async arrow function). In the
  analysis of a whole tree, a call whose nearest enclosing
  scope-opening construct is an await expression, a return statement or a \<open>for await\<close>
  loop is the node of no report.
\<close>

theorem suspension_boundary_suppresses:
  "scopeInfo (enterShortCircuitExpression nd st) = Some (ScopeInfo (scopeInfo st) False []) \<and>
   onCallExpression env cl (enterShortCircuitExpression nd st) = enterShortCircuitExpression nd st \<and>
   (opensScope nd \<and> \<not> isFunctionNode nd \<longrightarrow>
      set (enterEvents p nd) = {EnterShortCircuitExpression nd}) \<and>
   (distinct (callNodes tree) \<and>
    ((c, AwaitScope, fn) \<in> set (callSites NoScope None tree) \<or>
     (c, ReturnScope, fn) \<in> set (callSites NoScope None tree) \<or>
     (c, ForAwaitScope, fn) \<in> set (callSites NoScope None tree)) \<longrightarrow>
      c \<notin> node ` set (analyze env tree))"
proof (intro conjI impI)
  show "scopeInfo (enterShortCircuitExpression nd st) = Some (ScopeInfo (scopeInfo st) False [])"
    by (simp add: enterShortCircuitExpression_def)
  then have "\<not> checkable (enterShortCircuitExpression nd st)"
    by (simp add: checkable_def)
  then show "onCallExpression env cl (enterShortCircuitExpression nd st) =
               enterShortCircuitExpression nd st"
    by (rule onCallExpression_unchecked)
next
  assume "opensScope nd \<and> \<not> isFunctionNode nd"
  then show "set (enterEvents p nd) = {EnterShortCircuitExpression nd}"
    using boundary_events [of nd p] by auto
next
  assume a: "distinct (callNodes tree) \<and>
    ((c, AwaitScope, fn) \<in> set (callSites NoScope None tree) \<or>
     (c, ReturnScope, fn) \<in> set (callSites NoScope None tree) \<or>
     (c, ForAwaitScope, fn) \<in> set (callSites NoScope None tree))"
  then show "c \<notin> node ` set (analyze env tree)"
    using unchecked_site_silent [of tree c AwaitScope fn env]
      unchecked_site_silent [of tree c ReturnScope fn env]
      unchecked_site_silent [of tree c ForAwaitScope fn env] by auto
qed

theorem suspension_boundary_suppresses_witness:
  "opensScope awaitG \<and> \<not> isFunctionNode awaitG \<and>
   set (enterEvents None awaitG) = {EnterShortCircuitExpression awaitG} \<and>
   enterEvents (Some arrowAwaitsG) awaitG =
     [EnterShortCircuitExpression awaitG, EnterShortCircuitExpression awaitG] \<and>
   analyze exampleServices arrowAwaitsG = [] \<and>
   distinct (callNodes asyncAwaitsG) \<and>
   (awaitedG, AwaitScope, Some True) \<in> set (callSites NoScope None asyncAwaitsG) \<and>
   isViolation exampleServices awaitedG \<and>
   awaitedG \<notin> node ` set (analyze exampleServices asyncAwaitsG) \<and>
   distinct (callNodes asyncReturnsG) \<and>
   (returnedG, ReturnScope, Some True) \<in> set (callSites NoScope None asyncReturnsG) \<and>
   isViolation exampleServices returnedG \<and>
   returnedG \<notin> node ` set (analyze exampleServices asyncReturnsG)"
proof -
  have h1: "distinct (callNodes asyncAwaitsG)" by code_simp
  have h2: "(awaitedG, AwaitScope, Some True) \<in> set (callSites NoScope None asyncAwaitsG)"
    by code_simp
  have h3: "isViolation exampleServices awaitedG" by code_simp
  have h4: "distinct (callNodes asyncReturnsG)" by code_simp
  have h5: "(returnedG, ReturnScope, Some True) \<in> set (callSites NoScope None asyncReturnsG)"
    by code_simp
  have h6: "isViolation exampleServices returnedG" by code_simp
  have h7: "opensScope awaitG \<and> \<not> isFunctionNode awaitG" by code_simp
  have h8: "enterEvents (Some arrowAwaitsG) awaitG =
     [EnterShortCircuitExpression awaitG, EnterShortCircuitExpression awaitG]" by code_simp
  have h9: "analyze exampleServices arrowAwaitsG = []" by code_simp
  from suspension_boundary_suppresses [of awaitG initialState exampleServices awaitedG None
      asyncAwaitsG awaitedG "Some True"]
    suspension_boundary_suppresses [of returnG initialState exampleServices returnedG None
      asyncReturnsG returnedG "Some True"]
  show ?thesis using h1 h2 h3 h4 h5 h6 h7 h8 h9 by simp
qed

text \<open>
  C5. The \<open>CallExpression\<close> listener and \<open>addNoAwaitCalls\<close> change the top record only:
  the new top record has the same \<open>upper\<close> chain and the same flag, and its pending calls
  are the old ones with descriptors appended. The traversal of a whole function node, from
  any state, leaves the scope stack exactly as it was. \<open>exitFunction\<close> reports the pending
  calls of the top record and nothing else, so the one summary a function gets lists its
  own calls only, and it gets none when it has no call of its own; a call inside a nested
  function is not among the own calls of the enclosing function, and the nested function's
  summary lists it.
\<close>

theorem calls_added_to_top_scope_only:
  "(scopeInfo st = Some si \<longrightarrow>
      (\<exists>ds. scopeInfo (onCallExpression env nd st) =
               Some (ScopeInfo (upper si) (hasAsyncCheck si) (noAwaitCalls si @ ds)))) \<and>
   (scopeInfo st = Some si \<longrightarrow>
      scopeInfo (addNoAwaitCalls cal nd st) =
        Some (ScopeInfo (upper si) (hasAsyncCheck si)
                (noAwaitCalls si @
                 [name cal @ ''(line: '' @ numberToString (line (start (loc cal))) @ '')'']))) \<and>
   (isFunctionNode g \<longrightarrow> scopeInfo (run env (events p g) st) = scopeInfo st) \<and>
   (scopeInfo st = Some si \<longrightarrow>
      reports (exitFunction env g st) =
        reports st @
        (if async g \<and> noAwaitCalls si \<noteq> []
         then [Report g (getFunctionHeadLoc env g) noAwaitBeforeReturnPromise
                 (Some (noAwaitCalls si))]
         else [])) \<and>
   (isFunctionNode g \<longrightarrow>
      filter (\<lambda>r. node r = g) (newReports env p g st) =
        (if async g \<and> ownCalls env g \<noteq> []
         then [Report g (getFunctionHeadLoc env g) noAwaitBeforeReturnPromise
                 (Some (map (\<lambda>c. name (callee c) @ ''(line: '' @
                                    numberToString (line (start (loc (callee c)))) @ '')'')
                          (ownCalls env g)))]
         else [])) \<and>
   (isFunctionNode g \<and> distinct (callNodes g) \<and> c \<in> set (nestedCalls g) \<longrightarrow>
      c \<notin> set (ownCalls env g))"
proof (intro conjI impI)
  assume "scopeInfo st = Some si"
  then show "\<exists>ds. scopeInfo (onCallExpression env nd st) =
               Some (ScopeInfo (upper si) (hasAsyncCheck si) (noAwaitCalls si @ ds))"
    using onCallExpression_view [of env nd st] by simp
next
  assume "scopeInfo st = Some si"
  then show "scopeInfo (addNoAwaitCalls cal nd st) =
        Some (ScopeInfo (upper si) (hasAsyncCheck si)
                (noAwaitCalls si @
                 [name cal @ ''(line: '' @ numberToString (line (start (loc cal))) @ '')'']))"
    by (simp add: addNoAwaitCalls_def report_def callDescriptor_def)
next
  assume "isFunctionNode g"
  then show "scopeInfo (run env (events p g) st) = scopeInfo st"
    by (simp add: scopeInfo_run_events scopeDescriptors_def function_scopeCalls)
next
  assume "scopeInfo st = Some si"
  then show "reports (exitFunction env g st) =
        reports st @
        (if async g \<and> noAwaitCalls si \<noteq> []
         then [Report g (getFunctionHeadLoc env g) noAwaitBeforeReturnPromise
                 (Some (noAwaitCalls si))]
         else [])"
    by (simp add: exitFunction_def report_def)
next
  assume "isFunctionNode g"
  then show "filter (\<lambda>r. node r = g) (newReports env p g st) =
        (if async g \<and> ownCalls env g \<noteq> []
         then [Report g (getFunctionHeadLoc env g) noAwaitBeforeReturnPromise
                 (Some (map (\<lambda>c. name (callee c) @ ''(line: '' @
                                    numberToString (line (start (loc (callee c)))) @ '')'')
                          (ownCalls env g)))]
         else [])"
    by (rule function_summary)
next
  assume "isFunctionNode g \<and> distinct (callNodes g) \<and> c \<in> set (nestedCalls g)"
  then show "c \<notin> set (ownCalls env g)"
    using own_not_nested [of g c env] by simp
qed

theorem calls_added_to_top_scope_only_witness:
  "scopeInfo (enterFunction outerCallsH (initialState :: Node State)) = Some (ScopeInfo None True []) \<and>
   isFunctionNode innerCallsG \<and>
   scopeInfo (run exampleServices (events (Some outerCallsH) innerCallsG)
       (enterFunction outerCallsH initialState)) = Some (ScopeInfo None True []) \<and>
   filter (\<lambda>r. node r = innerCallsG)
     (newReports exampleServices (Some outerCallsH) innerCallsG
        (enterFunction outerCallsH initialState)) =
     [Report innerCallsG (at 2 0 19) noAwaitBeforeReturnPromise (Some [''g(line: 2)''])] \<and>
   isFunctionNode outerCallsH \<and>
   filter (\<lambda>r. node r = outerCallsH) (newReports exampleServices None outerCallsH initialState) =
     [Report outerCallsH (at 1 0 23) noAwaitBeforeReturnPromise (Some [''h(line: 3)''])] \<and>
   isFunctionNode outerAroundInner \<and>
   filter (\<lambda>r. node r = outerAroundInner)
     (newReports exampleServices None outerAroundInner initialState) = [] \<and>
   distinct (callNodes outerCallsH) \<and> callG2 \<in> set (nestedCalls outerCallsH) \<and>
   callG2 \<notin> set (ownCalls exampleServices outerCallsH) \<and>
   analyze exampleServices outerCallsH =
     [Report callG2 (at 2 21 22) asyncCallNoAwait None,
      Report innerCallsG (at 2 0 19) noAwaitBeforeReturnPromise (Some [''g(line: 2)'']),
      Report callH3 (at 3 2 3) asyncCallNoAwait None,
      Report outerCallsH (at 1 0 23) noAwaitBeforeReturnPromise (Some [''h(line: 3)''])]"
proof -
  let ?st = "enterFunction outerCallsH (initialState :: Node State)"
  let ?d = "\<lambda>c. name (callee c) @ ''(line: '' @ numberToString (line (start (loc (callee c)))) @ '')''"
  have h1: "scopeInfo ?st = Some (ScopeInfo None True [])" by code_simp
  have h2: "isFunctionNode innerCallsG" by code_simp
  have h3: "isFunctionNode outerCallsH" by code_simp
  have h4: "isFunctionNode outerAroundInner" by code_simp
  have h5: "distinct (callNodes outerCallsH)" by code_simp
  have h6: "callG2 \<in> set (nestedCalls outerCallsH)" by code_simp
  have o1: "ownCalls exampleServices innerCallsG = [callG2]" by code_simp
  have o2: "ownCalls exampleServices outerCallsH = [callH3]" by code_simp
  have o3: "ownCalls exampleServices outerAroundInner = []" by code_simp
  have a1: "async innerCallsG" "async outerCallsH" by code_simp+
  have d1: "map ?d [callG2] = [''g(line: 2)'']" by code_simp
  have d2: "map ?d [callH3] = [''h(line: 3)'']" by code_simp
  have l1: "getFunctionHeadLoc exampleServices innerCallsG = at 2 0 19" by code_simp
  have l2: "getFunctionHeadLoc exampleServices outerCallsH = at 1 0 23" by code_simp
  have all: "analyze exampleServices outerCallsH =
     [Report callG2 (at 2 21 22) asyncCallNoAwait None,
      Report innerCallsG (at 2 0 19) noAwaitBeforeReturnPromise (Some [''g(line: 2)'']),
      Report callH3 (at 3 2 3) asyncCallNoAwait None,
      Report outerCallsH (at 1 0 23) noAwaitBeforeReturnPromise (Some [''h(line: 3)''])]"
    by code_simp
  note inner = calls_added_to_top_scope_only [where st = ?st and si = "ScopeInfo None True []"
      and env = exampleServices and g = innerCallsG and p = "Some outerCallsH"]
  note outer = calls_added_to_top_scope_only [where st = "initialState :: Node State"
      and env = exampleServices and g = outerCallsH and p = None and c = callG2]
  note plain = calls_added_to_top_scope_only [where st = "initialState :: Node State"
      and env = exampleServices and g = outerAroundInner and p = None]
  from inner h2 have c1: "scopeInfo (run exampleServices (events (Some outerCallsH) innerCallsG) ?st) =
      Some (ScopeInfo None True [])"
    by (simp add: h1)
  from inner h2 have c2: "filter (\<lambda>r. node r = innerCallsG)
     (newReports exampleServices (Some outerCallsH) innerCallsG ?st) =
     [Report innerCallsG (at 2 0 19) noAwaitBeforeReturnPromise (Some [''g(line: 2)''])]"
    unfolding o1 d1 l1 using a1 by simp
  from outer h3 have c3: "filter (\<lambda>r. node r = outerCallsH)
     (newReports exampleServices None outerCallsH initialState) =
     [Report outerCallsH (at 1 0 23) noAwaitBeforeReturnPromise (Some [''h(line: 3)''])]"
    unfolding o2 d2 l2 using a1 by simp
  from plain h4 have c4: "filter (\<lambda>r. node r = outerAroundInner)
     (newReports exampleServices None outerAroundInner initialState) = []"
    unfolding o3 by simp
  from outer h3 h5 h6 have c5: "callG2 \<notin> set (ownCalls exampleServices outerCallsH)"
    by blast
  show ?thesis
    using h1 h2 h3 h4 h5 h6 c1 c2 c3 c4 c5 all by blast
qed

text \<open>
  C6. Popping with no active scope is a no-op: when \<open>scopeInfo\<close> is \<open>null\<close>, both
  \<open>exitFunction\<close> and \<open>exitShortCircuitExpression\<close> return without reporting and
  without changing any part of the state.
\<close>

theorem exit_without_scope_is_noop:
  "scopeInfo st = None \<Longrightarrow>
     exitFunction env nd st = st \<and> exitShortCircuitExpression nd st = st"
  by (simp add: exitFunction_def exitShortCircuitExpression_def)

theorem exit_without_scope_is_noop_witness:
  "scopeInfo (initialState :: Node State) = None \<and>
   exitFunction exampleServices asyncCallsG initialState = initialState \<and>
   exitShortCircuitExpression awaitG (initialState :: Node State) = initialState"
proof -
  have h: "scopeInfo (initialState :: Node State) = None" by (simp add: initialState_def)
  from exit_without_scope_is_noop [OF h, of exampleServices asyncCallsG]
    exit_without_scope_is_noop [OF h, of exampleServices awaitG]
  show ?thesis using h by simp
qed

text \<open>
  C7. \<open>exitShortCircuitExpression\<close> reports nothing. More generally, every listener
  invocation other than a function exit leaves the \<open>noAwaitBeforeReturnPromise\<close> reports
  as they were, and in the analysis of a whole tree every such report has a function node
  as its node.
\<close>

theorem boundary_exit_reports_nothing:
  "reports (exitShortCircuitExpression nd st) = reports st \<and>
   ((\<forall>f. e \<noteq> ExitFunction f) \<longrightarrow>
      filter (\<lambda>r. messageId r = noAwaitBeforeReturnPromise) (reports (handle env e st)) =
      filter (\<lambda>r. messageId r = noAwaitBeforeReturnPromise) (reports st)) \<and>
   (r \<in> set (analyze env tree) \<and> messageId r = noAwaitBeforeReturnPromise \<longrightarrow>
      isFunctionNode (node r))"
proof (intro conjI impI)
  show "reports (exitShortCircuitExpression nd st) = reports st"
    by (simp add: exitShortCircuitExpression_def split: option.splits)
next
  assume "\<forall>f. e \<noteq> ExitFunction f"
  then show "filter (\<lambda>r. messageId r = noAwaitBeforeReturnPromise) (reports (handle env e st)) =
      filter (\<lambda>r. messageId r = noAwaitBeforeReturnPromise) (reports st)"
    by (rule summaries_unchanged)
next
  assume "r \<in> set (analyze env tree) \<and> messageId r = noAwaitBeforeReturnPromise"
  then show "isFunctionNode (node r)"
    using subtreeReports_nodes [of r env False tree] by (auto simp: analyze_eq)
qed

theorem boundary_exit_reports_nothing_witness:
  "summaryReport exampleServices asyncCallsG \<in> set (analyze exampleServices asyncCallsG) \<and>
   messageId (summaryReport exampleServices asyncCallsG) = noAwaitBeforeReturnPromise \<and>
   isFunctionNode (node (summaryReport exampleServices asyncCallsG)) \<and>
   filter (\<lambda>r. messageId r = noAwaitBeforeReturnPromise)
     (reports (handle exampleServices (ExitShortCircuitExpression awaitG)
        (enterShortCircuitExpression awaitG initialState))) =
   filter (\<lambda>r. messageId r = noAwaitBeforeReturnPromise)
     (reports (enterShortCircuitExpression awaitG (initialState :: Node State)))"
proof -
  have h1: "summaryReport exampleServices asyncCallsG \<in> set (analyze exampleServices asyncCallsG)"
    by code_simp
  have h2: "messageId (summaryReport exampleServices asyncCallsG) = noAwaitBeforeReturnPromise"
    by (simp add: summaryReport_def)
  have h3: "\<forall>f. ExitShortCircuitExpression awaitG \<noteq> ExitFunction f" by simp
  from boundary_exit_reports_nothing [of awaitG "enterShortCircuitExpression awaitG initialState"
      "ExitShortCircuitExpression awaitG" exampleServices
      "summaryReport exampleServices asyncCallsG" asyncCallsG]
  show ?thesis using h1 h2 h3 by simp
qed

text \<open>
  C8. The analysis is deterministic: two runs over the same sequence of listener
  invocations, with services that give the same answers for these invocations, send the
  same reports in the same order.
\<close>

theorem analysis_deterministic:
  "\<forall>e\<in>set es. sameAnswers env1 env2 e \<Longrightarrow>
     reports (run env1 es initialState) = reports (run env2 es initialState)"
  using run_same_answers [of initialState initialState es env1 env2]
  by (simp add: initialState_def)

theorem analysis_deterministic_witness:
  "list_all (sameAnswers exampleServices lineServices) (events None returnsArrow) \<and>
   isThenableCall exampleServices returnsArrow \<noteq> isThenableCall lineServices returnsArrow \<and>
   reports (run exampleServices (events None returnsArrow) initialState) =
   reports (run lineServices (events None returnsArrow) initialState)"
proof -
  have h: "list_all (sameAnswers exampleServices lineServices) (events None returnsArrow)"
    by code_simp
  have d: "isThenableCall exampleServices returnsArrow \<noteq> isThenableCall lineServices returnsArrow"
    by code_simp
  from h have "\<forall>e\<in>set (events None returnsArrow). sameAnswers exampleServices lineServices e"
    by (simp add: list_all_iff)
  from analysis_deterministic [OF this] h d show ?thesis by simp
qed

text \<open>
  C9. Every listener invocation keeps the invariant that a record of the stack whose
  \<open>hasAsyncCheck\<close> is false has no pending calls, and the invariant holds after any
  sequence of invocations from the initial state. Moreover every record keeps the flag it
  was pushed with: after any sequence of invocations the records of the stack correspond
  one by one to the listeners that opened them, the flag of a record is true exactly when
  \<open>enterFunction\<close> opened it on an asynchronous function, and a record with pending calls
  was opened that way.
\<close>

theorem unchecked_scope_has_no_pending_calls:
  "(stackInv (scopeInfo st) \<longrightarrow> stackInv (scopeInfo (handle env e st))) \<and>
   stackInv (scopeInfo (run env es initialState)) \<and>
   scopeInfo (enterFunction nd st) = Some (ScopeInfo (scopeInfo st) (async nd) []) \<and>
   scopeInfo (enterShortCircuitExpression nd st) = Some (ScopeInfo (scopeInfo st) False []) \<and>
   (list_all2 openedAs (records (scopeInfo st)) os \<longrightarrow>
      list_all2 openedAs (records (scopeInfo (handle env e st))) (openedBy os e)) \<and>
   list_all2 openedAs (records (scopeInfo (run env es initialState))) (openerStack es)"
proof (intro conjI impI)
  assume "stackInv (scopeInfo st)"
  then show "stackInv (scopeInfo (handle env e st))" by (rule handle_stackInv)
next
  show "stackInv (scopeInfo (run env es initialState))"
    by (rule run_stackInv) (simp add: initialState_def)
next
  assume "list_all2 openedAs (records (scopeInfo st)) os"
  then show "list_all2 openedAs (records (scopeInfo (handle env e st))) (openedBy os e)"
    by (rule handle_openedAs)
next
  show "list_all2 openedAs (records (scopeInfo (run env es initialState))) (openerStack es)"
    unfolding openerStack_def by (rule run_openedAs) (simp add: initialState_def)
qed (simp_all add: enterFunction_def enterShortCircuitExpression_def)

theorem unchecked_scope_has_no_pending_calls_witness:
  "records (scopeInfo (run exampleServices syncThenCall initialState)) = [ScopeInfo None False []] \<and>
   openerStack syncThenCall = [ByFunction syncCallsG] \<and>
   list_all2 openedAs (records (scopeInfo (run exampleServices syncThenCall initialState)))
     (openerStack syncThenCall) \<and>
   records (scopeInfo (run exampleServices asyncThenAwait initialState)) =
     [ScopeInfo (Some (ScopeInfo None True [''g(line: 1)''])) False [],
      ScopeInfo None True [''g(line: 1)'']] \<and>
   openerStack asyncThenAwait = [ByBoundary awaitG, ByFunction asyncCallsG] \<and>
   list_all2 openedAs (records (scopeInfo (run exampleServices asyncThenAwait initialState)))
     (openerStack asyncThenAwait) \<and>
   stackInv (scopeInfo (run exampleServices asyncThenAwait initialState)) \<and>
   stackInv (scopeInfo (handle exampleServices (OnCallExpression callG)
      (run exampleServices asyncThenAwait initialState))) \<and>
   list_all2 openedAs
     (records (scopeInfo (handle exampleServices (ExitShortCircuitExpression awaitG)
        (run exampleServices asyncThenAwait initialState))))
     (openedBy (openerStack asyncThenAwait) (ExitShortCircuitExpression awaitG)) \<and>
   records (scopeInfo (handle exampleServices (ExitShortCircuitExpression awaitG)
        (run exampleServices asyncThenAwait initialState))) = [ScopeInfo None True [''g(line: 1)'']]"
proof -
  let ?st = "run exampleServices asyncThenAwait (initialState :: Node State)"
  have e1: "records (scopeInfo (run exampleServices syncThenCall initialState)) =
              [ScopeInfo None False []]" by code_simp
  have e2: "openerStack syncThenCall = [ByFunction syncCallsG]" by code_simp
  have e3: "records (scopeInfo ?st) =
     [ScopeInfo (Some (ScopeInfo None True [''g(line: 1)''])) False [],
      ScopeInfo None True [''g(line: 1)'']]" by code_simp
  have e4: "openerStack asyncThenAwait = [ByBoundary awaitG, ByFunction asyncCallsG]" by code_simp
  have e5: "records (scopeInfo (handle exampleServices (ExitShortCircuitExpression awaitG) ?st)) =
     [ScopeInfo None True [''g(line: 1)'']]" by code_simp
  note a = unchecked_scope_has_no_pending_calls [where env = exampleServices and es = syncThenCall
      and st = "initialState :: Node State"]
  note b = unchecked_scope_has_no_pending_calls [where env = exampleServices and es = asyncThenAwait
      and st = ?st and e = "OnCallExpression callG"]
  note c = unchecked_scope_has_no_pending_calls [where env = exampleServices and es = asyncThenAwait
      and st = ?st and e = "ExitShortCircuitExpression awaitG" and os = "openerStack asyncThenAwait"]
  from a have c1: "list_all2 openedAs (records (scopeInfo (run exampleServices syncThenCall initialState)))
     (openerStack syncThenCall)" by blast
  from b have c2: "list_all2 openedAs (records (scopeInfo ?st)) (openerStack asyncThenAwait)"
    and c3: "stackInv (scopeInfo ?st)" by blast+
  from b c3 have c4: "stackInv (scopeInfo (handle exampleServices (OnCallExpression callG) ?st))"
    by blast
  from c c2 have c5: "list_all2 openedAs
     (records (scopeInfo (handle exampleServices (ExitShortCircuitExpression awaitG) ?st)))
     (openedBy (openerStack asyncThenAwait) (ExitShortCircuitExpression awaitG))"
    by blast
  show ?thesis
    using e1 e2 e3 e4 e5 c1 c2 c3 c4 c5 by blast
qed



end
